theory Spec2Isabelle
  imports Complex_Main "HOL-Library.Signed_Division"
begin

unbundle bit_operations_syntax

section \<open>Data model\<close>

text \<open>
  The weight-gradient routine \<^verbatim>\<open>convWeightActs\<close> of \<^verbatim>\<open>weight_acts.cu\<close> and the three
  kernel templates it launches. Single-precision values are idealised as real numbers:
  rounding, infinities and NaN are not part of this development. C \<^verbatim>\<open>int\<close> values of the
  host routine are mathematical integers with C's truncating division (\<open>sdiv\<close>, \<open>smod\<close>);
  overflow of \<^verbatim>\<open>int\<close> is not modelled.
\<close>

text \<open>
  Modelled from the spec: the dense tensor \<^verbatim>\<open>NVMatrix\<close> (declared in \<^verbatim>\<open>nvmatrix.cuh\<close>, outside
  the sources at hand): rows, columns, leading-dimension stride, transposition flag,
  contiguity flag and the device buffer, here a function from offsets to values.
\<close>

record NVMatrix =
  getNumRows :: nat
  getNumCols :: nat
  getStride :: nat
  isTrans :: bool
  isContiguous :: bool
  getDevData :: "nat \<Rightarrow> real"

text \<open>
  Modelled from the spec: \<^verbatim>\<open>NVMatrix::resize\<close> sets the shape of a (contiguous) tensor; the
  contents of the buffer after a resize are unspecified, the model keeps the old function.
\<close>

definition resize :: "NVMatrix \<Rightarrow> nat \<Rightarrow> nat \<Rightarrow> NVMatrix" where
  "resize M r c = M\<lparr>getNumRows := r, getNumCols := c, getStride := c\<rparr>"

text \<open>
  Modelled from the spec: the macro \<^verbatim>\<open>DIVUP\<close> (declared in a header outside the sources at
  hand) is the rounded-up quotient, so that the launched grid covers all filter pixels.
\<close>

definition DIVUP :: "int \<Rightarrow> int \<Rightarrow> int" where
  "DIVUP x y = (x + y - 1) sdiv y"

text \<open>\<^verbatim>\<open>int(sqrt(n))\<close> for a non-negative \<^verbatim>\<open>n\<close>: the integer square root.\<close>

fun isqrt :: "nat \<Rightarrow> nat" where
  "isqrt 0 = 0"
| "isqrt (Suc n) = (let r = isqrt n in if (r + 1) * (r + 1) \<le> Suc n then r + 1 else r)"

text \<open>
  A failed \<^verbatim>\<open>assert\<close> aborts the process, an integer division by zero kills it; both carry
  the line of \<^verbatim>\<open>weight_acts.cu\<close> where it happens.
\<close>

datatype error = AssertionFailed nat | DivisionByZero nat

definition c_assert :: "bool \<Rightarrow> nat \<Rightarrow> error + 'a \<Rightarrow> error + 'a" where
  "c_assert c line k = (if c then k else Inl (AssertionFailed line))"

subsection \<open>Kernel templates, arguments and launches\<close>

datatype kernel =
    weight_acts_kernel2_color
  | weight_acts_kernel2_manycolor
  | weight_acts_kernel2_manycolor_manyfilter

text \<open>
  The template parameters of the three kernels, under the source's names. A kernel reads
  only the parameters its template has; the others are 0 in its instantiations.
\<close>

record tmpl =
  B_Y :: nat
  B_X :: nat
  pixelsPerThread :: nat
  filtersPerThread :: nat
  colorsPerThread :: nat
  numColors :: nat
  preloadCases :: nat
  scale :: bool
  checkCaseBounds :: bool

text \<open>\<^verbatim>\<open>weight_acts_kernel2_color<B_Y, B_X, pixelsPerThread, preloadCases, numColors, scale, checkCaseBounds>\<close>\<close>

definition color_tmpl :: "nat \<Rightarrow> nat \<Rightarrow> nat \<Rightarrow> nat \<Rightarrow> nat \<Rightarrow> bool \<Rightarrow> bool \<Rightarrow> tmpl" where
  "color_tmpl y x ppt pc nc sc cb =
     \<lparr>B_Y = y, B_X = x, pixelsPerThread = ppt, filtersPerThread = 0, colorsPerThread = 0,
      numColors = nc, preloadCases = pc, scale = sc, checkCaseBounds = cb\<rparr>"

text \<open>\<^verbatim>\<open>weight_acts_kernel2_manycolor<B_Y, B_X, pixelsPerThread, colorsPerThread, preloadCases, scale, checkCaseBounds>\<close>\<close>

definition manycolor_tmpl :: "nat \<Rightarrow> nat \<Rightarrow> nat \<Rightarrow> nat \<Rightarrow> nat \<Rightarrow> bool \<Rightarrow> bool \<Rightarrow> tmpl" where
  "manycolor_tmpl y x ppt cpt pc sc cb =
     \<lparr>B_Y = y, B_X = x, pixelsPerThread = ppt, filtersPerThread = 0, colorsPerThread = cpt,
      numColors = 0, preloadCases = pc, scale = sc, checkCaseBounds = cb\<rparr>"

text \<open>\<^verbatim>\<open>weight_acts_kernel2_manycolor_manyfilter<B_Y, B_X, filtersPerThread, colorsPerThread, preloadCases, scale, checkCaseBounds>\<close>\<close>

definition manyfilter_tmpl :: "nat \<Rightarrow> nat \<Rightarrow> nat \<Rightarrow> nat \<Rightarrow> nat \<Rightarrow> bool \<Rightarrow> bool \<Rightarrow> tmpl" where
  "manyfilter_tmpl y x fpt cpt pc sc cb =
     \<lparr>B_Y = y, B_X = x, pixelsPerThread = 0, filtersPerThread = fpt, colorsPerThread = cpt,
      numColors = 0, preloadCases = pc, scale = sc, checkCaseBounds = cb\<rparr>"

text \<open>
  The run-time arguments of a kernel, under the source's names. On every launch the host
  routine has checked that the counts are non-negative, so they are naturals here;
  \<open>numModulesX\<close>, \<open>paddingStart\<close> and \<open>moduleStride\<close> stay integers.
  \<^verbatim>\<open>weight_acts_kernel2_color\<close> has no \<open>numImgColors\<close> and no \<open>numGroups\<close> argument and
  does not read these fields.
\<close>

record kargs =
  numImages :: nat
  numFilters :: nat
  numModulesX :: int
  imgSize :: nat
  filterSize :: nat
  paddingStart :: int
  moduleStride :: int
  imgStride :: nat
  numImgColors :: nat
  modulesPerBlock :: nat
  numGroups :: nat
  scaleTargets :: real
  scaleOutput :: real

text \<open>A launch \<^verbatim>\<open>kernel<template><<<blocks, threads>>>(arguments)\<close>: \<open>blocks\<close> and \<open>threads\<close> are (x, y).\<close>

record launch =
  l_kernel :: kernel
  l_tmpl :: tmpl
  l_blocks :: "nat \<times> nat"
  l_threads :: "nat \<times> nat"
  l_args :: kargs

section \<open>The host routine: checks, launch geometry and kernel selection\<close>

text \<open>
  Lines 631 to 653 of \<^verbatim>\<open>convWeightActs\<close>: the block size \<open>(bx, by)\<close> and the grid \<open>blocks\<close>.
  (The \<^verbatim>\<open>assert(numGroups == 1)\<close> of line 648 is in \<open>convWeightActs_launch\<close> below.)
\<close>

definition launch_geometry :: "int \<Rightarrow> int \<Rightarrow> int \<Rightarrow> int \<Rightarrow> int \<Rightarrow> int \<Rightarrow> int \<Rightarrow> int \<times> int \<times> (int \<times> int)" where
  "launch_geometry =
   (\<lambda>numFilterColors numFiltersPerGroup numFilters numImgColors numModules moduleSum filterPixels.
     if numFilterColors > 3 then
       if numFiltersPerGroup smod 32 = 0 then
         let filtersPerThread = (2 :: int);
             colorsPerThread = (if numFilterColors smod 8 = 0 then 8 else 4 :: int);
             by = (if numFiltersPerGroup smod 64 = 0 then 4 else 8 :: int);
             bx = (if numFiltersPerGroup smod 64 = 0 then 32 else 16 :: int)
         in (bx, by, ((numModules sdiv moduleSum) * (numFilters sdiv (bx * filtersPerThread)),
                      DIVUP filterPixels by * (numFilterColors sdiv colorsPerThread)))
       else
         let pixelsPerThread = (2 :: int);
             colorsPerThread = (if numFilterColors smod 8 = 0 then 8 else 4 :: int);
             by = (if numFiltersPerGroup smod 32 = 0 then 4 else 8 :: int);
             bx = (if numFiltersPerGroup smod 32 = 0 then 32 else 16 :: int)
         in (bx, by, ((numModules sdiv moduleSum) * (numFilters sdiv bx),
                      DIVUP filterPixels (by * pixelsPerThread) * (numFilterColors sdiv colorsPerThread)))
     else
       let pixelsPerThread = (if numFilters smod 32 = 0 then (if numImgColors = 1 then 8 else 5)
                              else (if numImgColors = 1 then 5 else 2 :: int));
           by = (if numFilters smod 32 = 0 then 4 else 8 :: int);
           bx = (if numFilters smod 32 = 0 then 32 else 16 :: int)
       in (bx, by, ((numModules sdiv moduleSum) * (numFilters sdiv bx),
                    DIVUP filterPixels (by * pixelsPerThread))))"

text \<open>
  Lines 664 to 1025 of \<^verbatim>\<open>convWeightActs\<close>: the kernel instantiation that is launched,
  branch by branch (\<open>None\<close>: no branch launches). \<open>doNotScale\<close> is the test
  \<^verbatim>\<open>scaleTargets == 0 && scaleOutput == 1\<close>.
\<close>

definition select_kernel :: "int \<Rightarrow> int \<Rightarrow> int \<Rightarrow> bool \<Rightarrow> bool \<Rightarrow> (kernel \<times> tmpl) option" where
  "select_kernel =
   (\<lambda>numFilterColors numFiltersPerGroup numFilters checkCaseBounds doNotScale.
  if numFilterColors > 3 then
    if doNotScale then
      if numFiltersPerGroup smod 32 = 0 then
        if numFiltersPerGroup smod 64 = 0 then
          if numFilterColors smod 8 = 0 then
            if checkCaseBounds then Some (weight_acts_kernel2_manycolor_manyfilter, manyfilter_tmpl 4 32 2 8 32 False True)
            else Some (weight_acts_kernel2_manycolor_manyfilter, manyfilter_tmpl 4 32 2 8 32 False False)
          else
            if checkCaseBounds then Some (weight_acts_kernel2_manycolor_manyfilter, manyfilter_tmpl 4 32 2 4 32 False True)
            else Some (weight_acts_kernel2_manycolor_manyfilter, manyfilter_tmpl 4 32 2 4 32 False False)
        else
          if numFilterColors smod 8 = 0 then
            if checkCaseBounds then Some (weight_acts_kernel2_manycolor_manyfilter, manyfilter_tmpl 8 16 2 8 32 False True)
            else Some (weight_acts_kernel2_manycolor_manyfilter, manyfilter_tmpl 8 16 2 8 32 False False)
          else
            if checkCaseBounds then Some (weight_acts_kernel2_manycolor_manyfilter, manyfilter_tmpl 8 16 2 4 32 False True)
            else Some (weight_acts_kernel2_manycolor_manyfilter, manyfilter_tmpl 8 16 2 4 32 False False)
      else
        if numFilterColors smod 8 = 0 then
          if checkCaseBounds then
            if numFiltersPerGroup smod 32 = 0 then Some (weight_acts_kernel2_manycolor, manycolor_tmpl 4 32 2 8 32 False True)
            else Some (weight_acts_kernel2_manycolor, manycolor_tmpl 8 16 2 8 32 False True)
          else
            if numFiltersPerGroup smod 32 = 0 then Some (weight_acts_kernel2_manycolor, manycolor_tmpl 4 32 2 8 32 False False)
            else Some (weight_acts_kernel2_manycolor, manycolor_tmpl 8 16 2 8 32 False False)
        else
          if checkCaseBounds then
            if numFiltersPerGroup smod 32 = 0 then Some (weight_acts_kernel2_manycolor, manycolor_tmpl 4 32 2 4 32 False True)
            else Some (weight_acts_kernel2_manycolor, manycolor_tmpl 8 16 2 4 32 False True)
          else
            if numFiltersPerGroup smod 32 = 0 then Some (weight_acts_kernel2_manycolor, manycolor_tmpl 4 32 2 4 32 False False)
            else Some (weight_acts_kernel2_manycolor, manycolor_tmpl 8 16 2 4 32 False False)
    else
      if numFiltersPerGroup smod 32 = 0 then
        if numFiltersPerGroup smod 64 = 0 then
          if numFilterColors smod 8 = 0 then
            if checkCaseBounds then Some (weight_acts_kernel2_manycolor_manyfilter, manyfilter_tmpl 4 32 2 8 32 True True)
            else Some (weight_acts_kernel2_manycolor_manyfilter, manyfilter_tmpl 4 32 2 8 32 True False)
          else
            if checkCaseBounds then Some (weight_acts_kernel2_manycolor_manyfilter, manyfilter_tmpl 4 32 2 4 32 True True)
            else Some (weight_acts_kernel2_manycolor_manyfilter, manyfilter_tmpl 4 32 2 4 32 True False)
        else
          if numFilterColors smod 8 = 0 then
            if checkCaseBounds then Some (weight_acts_kernel2_manycolor_manyfilter, manyfilter_tmpl 8 16 2 8 32 True True)
            else Some (weight_acts_kernel2_manycolor_manyfilter, manyfilter_tmpl 8 16 2 8 32 True False)
          else
            if checkCaseBounds then Some (weight_acts_kernel2_manycolor_manyfilter, manyfilter_tmpl 8 16 2 4 32 True True)
            else Some (weight_acts_kernel2_manycolor_manyfilter, manyfilter_tmpl 8 16 2 4 32 True False)
      else
        if numFilterColors smod 8 = 0 then
          if checkCaseBounds then
            if numFiltersPerGroup smod 32 = 0 then Some (weight_acts_kernel2_manycolor, manycolor_tmpl 4 32 2 8 32 True True)
            else Some (weight_acts_kernel2_manycolor, manycolor_tmpl 8 16 2 8 32 True True)
          else
            if numFiltersPerGroup smod 32 = 0 then Some (weight_acts_kernel2_manycolor, manycolor_tmpl 4 32 2 8 32 True False)
            else Some (weight_acts_kernel2_manycolor, manycolor_tmpl 8 16 2 8 32 True False)
        else
          if checkCaseBounds then
            if numFiltersPerGroup smod 32 = 0 then Some (weight_acts_kernel2_manycolor, manycolor_tmpl 4 32 2 4 32 True True)
            else Some (weight_acts_kernel2_manycolor, manycolor_tmpl 8 16 2 4 32 True True)
          else
            if numFiltersPerGroup smod 32 = 0 then Some (weight_acts_kernel2_manycolor, manycolor_tmpl 4 32 2 4 32 True False)
            else Some (weight_acts_kernel2_manycolor, manycolor_tmpl 8 16 2 4 32 True False)
  else
    if doNotScale then
      if numFilterColors = 1 then
        if checkCaseBounds then
          if numFilters smod 32 = 0 then Some (weight_acts_kernel2_color, color_tmpl 4 32 8 32 1 False True)
          else Some (weight_acts_kernel2_color, color_tmpl 8 16 5 32 1 False True)
        else
          if numFilters smod 32 = 0 then Some (weight_acts_kernel2_color, color_tmpl 4 32 8 32 1 False False)
          else Some (weight_acts_kernel2_color, color_tmpl 8 16 5 32 1 False False)
      else if numFilterColors = 2 then
        if checkCaseBounds then
          if numFilters smod 32 = 0 then Some (weight_acts_kernel2_color, color_tmpl 4 32 5 32 2 False True)
          else Some (weight_acts_kernel2_color, color_tmpl 8 16 2 32 2 False True)
        else
          if numFilters smod 32 = 0 then Some (weight_acts_kernel2_color, color_tmpl 4 32 5 32 2 False False)
          else Some (weight_acts_kernel2_color, color_tmpl 8 16 2 32 2 False False)
      else if numFilterColors = 3 then
        if checkCaseBounds then
          if numFilters smod 32 = 0 then Some (weight_acts_kernel2_color, color_tmpl 4 32 5 32 3 False True)
          else Some (weight_acts_kernel2_color, color_tmpl 8 16 2 32 3 False True)
        else
          if numFilters smod 32 = 0 then Some (weight_acts_kernel2_color, color_tmpl 4 32 5 32 3 False False)
          else Some (weight_acts_kernel2_color, color_tmpl 8 16 2 32 3 False False)
      else None
    else
      if numFilterColors = 1 then
        if checkCaseBounds then
          if numFilters smod 32 = 0 then Some (weight_acts_kernel2_color, color_tmpl 4 32 8 32 1 True True)
          else Some (weight_acts_kernel2_color, color_tmpl 8 16 5 32 1 True True)
        else
          if numFilters smod 32 = 0 then Some (weight_acts_kernel2_color, color_tmpl 4 32 8 32 1 True False)
          else Some (weight_acts_kernel2_color, color_tmpl 8 16 5 32 1 True False)
      else if numFilterColors = 2 then
        if checkCaseBounds then
          if numFilters smod 32 = 0 then Some (weight_acts_kernel2_color, color_tmpl 4 32 5 32 2 True True)
          else Some (weight_acts_kernel2_color, color_tmpl 8 16 2 32 2 True True)
        else
          if numFilters smod 32 = 0 then Some (weight_acts_kernel2_color, color_tmpl 4 32 5 32 2 True False)
          else Some (weight_acts_kernel2_color, color_tmpl 8 16 2 32 2 True False)
      else if numFilterColors = 3 then
        if checkCaseBounds then
          if numFilters smod 32 = 0 then Some (weight_acts_kernel2_color, color_tmpl 4 32 5 32 3 True True)
          else Some (weight_acts_kernel2_color, color_tmpl 8 16 2 32 3 True True)
        else
          if numFilters smod 32 = 0 then Some (weight_acts_kernel2_color, color_tmpl 4 32 5 32 3 True False)
          else Some (weight_acts_kernel2_color, color_tmpl 8 16 2 32 3 True False)
      else None)"

text \<open>
  \<^verbatim>\<open>convWeightActs\<close> (lines 585 to 1026) up to and including the launch, as a function
  that returns either the error that stops the process or the target tensor after the
  shape step together with the launch that is issued (\<open>None\<close>: the routine returns
  without having launched a kernel). The local variables carry the source's names.
\<close>

definition convWeightActs_launch ::
  "NVMatrix \<Rightarrow> NVMatrix \<Rightarrow> NVMatrix \<Rightarrow> int \<Rightarrow> int \<Rightarrow> int \<Rightarrow> int \<Rightarrow> int \<Rightarrow> int \<Rightarrow> real \<Rightarrow> real \<Rightarrow> int
     \<Rightarrow> error + (NVMatrix \<times> launch option)" where
  "convWeightActs_launch =
   (\<lambda>images hidActs targets numModulesX filterSize paddingStart moduleStride numImgColors
      numGroups scaleTargets scaleOutput moduleSum0.
    if numGroups = 0 then Inl (DivisionByZero 589) else
    let numFilterColors = numImgColors sdiv numGroups;
        imgStride = int (getStride images);
        numImages = int (getNumCols images) in
    if numImgColors = 0 then Inl (DivisionByZero 592) else
    let imgPixels = int (getNumRows images) sdiv numImgColors;
        imgSize = int (isqrt (nat imgPixels));
        numModules = numModulesX * numModulesX in
    if numModules = 0 then Inl (DivisionByZero 595) else
    let numFilters = int (getNumRows hidActs) sdiv numModules;
        numFiltersPerGroup = numFilters sdiv numGroups in
    c_assert (numImgColors smod numGroups = 0) 598 (
    c_assert (numFilters smod (16 * numGroups) = 0) 599 (
    c_assert (numGroups > 1 \<or> (numImgColors > 0 \<and> (numImgColors \<le> 3 \<or> numImgColors smod 4 = 0))) 600 (
    c_assert (numGroups = 1 \<or> numFilterColors smod 4 = 0) 601 (
    c_assert (imgSize * imgSize = imgPixels) 602 (
    c_assert (int (getNumRows images) = imgPixels * numImgColors) 603 (
    let filterPixels = filterSize * filterSize;
        moduleSum = (if moduleSum0 = 0 then numModules else moduleSum0) in
    c_assert (numModules smod moduleSum = 0) 608 (
    c_assert (int (getNumCols hidActs) = numImages) 609 (
    c_assert (paddingStart \<le> 0 \<and> paddingStart + (numModules - 1) * moduleStride + filterSize \<ge> imgSize) 612 (
    c_assert (moduleStride \<le> filterSize) 613 (
    c_assert (numModules * numFilters = int (getNumRows hidActs)) 615 (
    c_assert (\<not> isTrans images) 617 (
    c_assert (\<not> isTrans hidActs) 618 (
    c_assert (isContiguous hidActs) 619 (
    c_assert (\<not> isTrans targets) 621 (
    c_assert (isContiguous targets) 622 (
    let preloadCases = (32 :: int) in
    c_assert (numFilterColors > 3 \<or> numGroups = 1) 648 (
    let (bx, by, blocks) = launch_geometry numFilterColors numFiltersPerGroup numFilters
                             numImgColors numModules moduleSum filterPixels in
    c_assert ((by * bx) smod preloadCases = 0) 654 (
    let threads = (bx, by);
        checkCaseBounds = (numImages smod 32 \<noteq> 0);
        doNotScale = (scaleTargets = 0 \<and> scaleOutput = 1);
        rows = (numModules sdiv moduleSum) * numFilterColors * filterPixels in
    c_assert (doNotScale \<or> int (getNumRows targets) = rows) 661 (
    c_assert (doNotScale \<or> int (getNumCols targets) = numFilters) 662 (
    let targets' = (if doNotScale then resize targets (nat rows) (nat numFilters) else targets);
        args = \<lparr>numImages = nat numImages, numFilters = nat numFilters, numModulesX = numModulesX,
                imgSize = nat imgSize, filterSize = nat filterSize, paddingStart = paddingStart,
                moduleStride = moduleStride, imgStride = nat imgStride,
                numImgColors = nat numImgColors, modulesPerBlock = nat moduleSum,
                numGroups = nat numGroups, scaleTargets = scaleTargets, scaleOutput = scaleOutput\<rparr>
    in
    case select_kernel numFilterColors numFiltersPerGroup numFilters checkCaseBounds doNotScale of
      None \<Rightarrow> Inr (targets', None)
    | Some (k, t) \<Rightarrow>
        Inr (targets',
             Some \<lparr>l_kernel = k, l_tmpl = t, l_blocks = (nat (fst blocks), nat (snd blocks)),
                   l_threads = (nat (fst threads), nat (snd threads)), l_args = args\<rparr>)
    )))))))))))))))))))))"

section \<open>The kernels\<close>

subsection \<open>Execution model\<close>

text \<open>
  Device buffers and \<^verbatim>\<open>__shared__\<close> arrays are functions from offsets to values; a
  two-dimensional shared array is addressed row-major, as the compiler lays it out. The
  registers \<^verbatim>\<open>prod[c][p]\<close> of a thread are a function of the pair \<open>(c, p)\<close>.
\<close>

type_synonym gmem = "nat \<Rightarrow> real"
type_synonym shmem = "nat \<Rightarrow> real"
type_synonym regs = "nat \<times> nat \<Rightarrow> real"

text \<open>The indices \<open>(x, y)\<close> of the threads of a block, or of the blocks of a grid, of dimensions \<open>d\<close>.\<close>

definition dim3_ids :: "nat \<times> nat \<Rightarrow> (nat \<times> nat) list" where
  "dim3_ids d = concat (map (\<lambda>y. map (\<lambda>x. (x, y)) [0..<fst d]) [0..<snd d])"

text \<open>
  The values of the loop variable of \<^verbatim>\<open>for (y = 0; y < n; y += step)\<close>. (The step is
  positive in every launch; with step 0 the C loop would not end.)
\<close>

definition for_range :: "nat \<Rightarrow> nat \<Rightarrow> nat list" where
  "for_range n step = map (\<lambda>k. k * step) [0..<(n + step - 1) div step]"

text \<open>
  One pass of the kernels' inner loop, for a whole block. Up to the first
  \<^verbatim>\<open>__syncthreads()\<close> every thread stores into \<open>shImages\<close> and \<open>shHidActs\<close>; between the
  first and the second barrier every thread reads the two arrays and adds into its own
  registers. \<open>ldI t\<close>, \<open>ldH t\<close> and \<open>acc t\<close> are these parts of the code of thread \<open>t\<close>.
\<close>

definition block_step ::
  "(nat \<times> nat) list \<Rightarrow> (nat \<times> nat \<Rightarrow> shmem \<Rightarrow> shmem) \<Rightarrow> (nat \<times> nat \<Rightarrow> shmem \<Rightarrow> shmem)
    \<Rightarrow> (nat \<times> nat \<Rightarrow> shmem \<Rightarrow> shmem \<Rightarrow> regs \<Rightarrow> regs)
    \<Rightarrow> shmem \<times> shmem \<times> (nat \<times> nat \<Rightarrow> regs) \<Rightarrow> shmem \<times> shmem \<times> (nat \<times> nat \<Rightarrow> regs)" where
  "block_step ts ldI ldH acc =
     (\<lambda>(shI, shH, prd).
        let shI' = fold ldI ts shI;
            shH' = fold ldH ts shH
        in (shI', shH', (\<lambda>t. acc t shI' shH' (prd t))))"

text \<open>
  A block: the registers start at 0, the shared arrays with unspecified contents
  \<open>junk\<close>; the loop over the modules \<open>ms\<close> of the block and the image tiles \<open>tiles\<close> runs
  \<open>block_step\<close>; at the end every thread writes its part of \<open>targets\<close> (\<open>wr t\<close>).
\<close>

definition run_block ::
  "(nat \<times> nat) list \<Rightarrow> nat list \<Rightarrow> nat list
    \<Rightarrow> (nat \<times> nat \<Rightarrow> nat \<Rightarrow> nat \<Rightarrow> shmem \<Rightarrow> shmem) \<Rightarrow> (nat \<times> nat \<Rightarrow> nat \<Rightarrow> nat \<Rightarrow> shmem \<Rightarrow> shmem)
    \<Rightarrow> (nat \<times> nat \<Rightarrow> shmem \<Rightarrow> shmem \<Rightarrow> regs \<Rightarrow> regs) \<Rightarrow> (nat \<times> nat \<Rightarrow> regs \<Rightarrow> gmem \<Rightarrow> gmem)
    \<Rightarrow> shmem \<times> shmem \<Rightarrow> gmem \<Rightarrow> gmem" where
  "run_block ts ms tiles ldI ldH acc wr junk targets =
     (let st = fold (\<lambda>m. fold (\<lambda>caseIdx. block_step ts (\<lambda>t. ldI t m caseIdx) (\<lambda>t. ldH t m caseIdx) acc) tiles) ms
                 (fst junk, snd junk, (\<lambda>t k. 0))
      in fold (\<lambda>t. wr t (snd (snd st) t)) ts targets)"

subsection \<open>Locals shared by the three kernels\<close>

definition tidx :: "tmpl \<Rightarrow> nat \<times> nat \<Rightarrow> nat" where
  "tidx T t = B_X T * snd t + fst t"

definition loadY :: "tmpl \<Rightarrow> nat \<times> nat \<Rightarrow> nat" where
  "loadY T t = tidx T t div preloadCases T"

definition loadX :: "tmpl \<Rightarrow> nat \<times> nat \<Rightarrow> nat" where
  "loadX T t = tidx T t mod preloadCases T"

text \<open>\<^verbatim>\<open>(B_X * B_Y) / preloadCases\<close>: the number of rows of a shared array filled per iteration.\<close>

definition loadStep :: "tmpl \<Rightarrow> nat" where
  "loadStep T = (B_X T * B_Y T) div preloadCases T"

definition filterPixels :: "kargs \<Rightarrow> nat" where
  "filterPixels a = filterSize a * filterSize a"

definition imgPixels :: "kargs \<Rightarrow> nat" where
  "imgPixels a = imgSize a * imgSize a"

definition numModules :: "kargs \<Rightarrow> nat" where
  "numModules a = nat (numModulesX a * numModulesX a)"

definition numFiltersPerGroup :: "kargs \<Rightarrow> nat" where
  "numFiltersPerGroup a = numFilters a div numGroups a"

definition numFilterColors :: "kargs \<Rightarrow> nat" where
  "numFilterColors a = numImgColors a div numGroups a"

definition imgLoadModPosY :: "kargs \<Rightarrow> nat \<Rightarrow> int" where
  "imgLoadModPosY a m = paddingStart a + (int m sdiv numModulesX a) * moduleStride a"

definition imgLoadModPosX :: "kargs \<Rightarrow> nat \<Rightarrow> int" where
  "imgLoadModPosX a m = paddingStart a + (int m smod numModulesX a) * moduleStride a"

text \<open>
  The image gather (lines 107 to 144, 292 to 330 and 478 to 515). The three kernels differ
  in the number \<open>rows\<close> of pixel rows per colour in \<open>shImages\<close> (\<open>B_Y * pixelsPerThread\<close>,
  or \<open>B_Y\<close>), in the number \<open>ncolors\<close> of colours, in the block's first filter pixel
  \<open>blockPixelOffset\<close>, in the way \<open>pxc\<close> they get the position in the filter (row, column)
  of the pixel \<open>loadY + y\<close> of the block, and in the offset \<open>imagesOff\<close> added to \<open>images\<close>.
  \<open>shImgLoad\<close> is \<^verbatim>\<open>&shImages[loadY][loadX]\<close>.
\<close>

definition load_images ::
  "tmpl \<Rightarrow> kargs \<Rightarrow> gmem \<Rightarrow> nat \<Rightarrow> nat \<Rightarrow> nat \<Rightarrow> (nat \<Rightarrow> nat \<times> nat) \<Rightarrow> nat
     \<Rightarrow> nat \<times> nat \<Rightarrow> nat \<Rightarrow> nat \<Rightarrow> shmem \<Rightarrow> shmem" where
  "load_images T a images rows ncolors blockPixelOffset pxc imagesOff t m caseIdx shImages =
    (let shImgLoad = loadY T t * preloadCases T + loadX T t in
     if loadY T t < rows then
       fold (\<lambda>y sh.
         if rows mod loadStep T = 0 \<or> y + loadY T t < rows then
           (let pxIdx = loadY T t + y in
            if pxIdx + blockPixelOffset < filterPixels a
               \<and> (\<not> checkCaseBounds T \<or> caseIdx + loadX T t < numImages a) then
              (let pxY = imgLoadModPosY a m + int (fst (pxc pxIdx));
                   pxX = imgLoadModPosX a m + int (snd (pxc pxIdx)) in
               if pxY \<ge> 0 \<and> pxY < int (imgSize a) \<and> pxX \<ge> 0 \<and> pxX < int (imgSize a) then
                 (let pixIdx = nat ((pxY * int (imgSize a) + pxX) * int (imgStride a)) in
                  fold (\<lambda>c sh. sh(shImgLoad + (y + c * rows) * preloadCases T :=
                          images (imagesOff + loadX T t
                                  + (caseIdx + c * imgPixels a * imgStride a + pixIdx))))
                    [0..<ncolors] sh)
               else
                 fold (\<lambda>c sh. sh(shImgLoad + (y + c * rows) * preloadCases T := 0)) [0..<ncolors] sh)
            else
              fold (\<lambda>c sh. sh(shImgLoad + (y + c * rows) * preloadCases T := 0)) [0..<ncolors] sh)
         else sh) (for_range rows (loadStep T)) shImages
     else shImages)"

text \<open>
  The gather of hidden activations (lines 145 to 153, 331 to 339 and 516 to 524), for
  \<open>rows\<close> filters (\<open>B_X\<close>, or \<open>B_X * filtersPerThread\<close>). \<open>hidActsOff\<close> is the value of the
  pointer \<open>hidActs\<close> in the current module; \<open>shHidActLoad\<close> is \<^verbatim>\<open>&shHidActs[loadY][loadX]\<close>.
\<close>

definition load_hidActs ::
  "tmpl \<Rightarrow> kargs \<Rightarrow> gmem \<Rightarrow> nat \<Rightarrow> nat \<Rightarrow> nat \<times> nat \<Rightarrow> nat \<Rightarrow> shmem \<Rightarrow> shmem" where
  "load_hidActs T a hidActs rows hidActsOff t caseIdx shHidActs =
    (let shHidActLoad = loadY T t * (preloadCases T + 1) + loadX T t in
     if loadY T t < rows \<and> (\<not> checkCaseBounds T \<or> caseIdx + loadX T t < numImages a) then
       fold (\<lambda>y sh.
         if rows mod loadStep T = 0 \<or> y + loadY T t < rows then
           sh(shHidActLoad + y * (preloadCases T + 1) :=
                hidActs (hidActsOff + (caseIdx + y * numImages a * numModules a)))
         else sh) (for_range rows (loadStep T)) shHidActs
     else shHidActs)"

text \<open>
  The pointer \<open>hidActs\<close> of a thread in module \<open>m\<close>: after the offset of lines 82, 260
  and 445 (with the block's first filter \<open>bfi\<close> and first module \<open>mi\<close>) and \<open>m - mi\<close>
  increments by \<open>numImages\<close> (lines 168, 355 and 540).
\<close>

definition hidActsOff :: "tmpl \<Rightarrow> kargs \<Rightarrow> nat \<Rightarrow> nat \<Rightarrow> nat \<times> nat \<Rightarrow> nat \<Rightarrow> nat" where
  "hidActsOff T a bfi mi t m =
     mi * numImages a
     + bfi * numImages a * numModules a
     + loadY T t * numImages a * numModules a
     + loadX T t
     + (m - mi) * numImages a"

text \<open>
  The final write of \<^verbatim>\<open>weight_acts_kernel2_color\<close> and \<^verbatim>\<open>weight_acts_kernel2_manycolor\<close>
  (lines 171 to 191 and 358 to 378), with \<open>targetsOff\<close> the offset added to \<open>targets\<close>.
\<close>

definition write_pixels ::
  "tmpl \<Rightarrow> kargs \<Rightarrow> nat \<Rightarrow> nat \<Rightarrow> nat \<Rightarrow> nat \<times> nat \<Rightarrow> regs \<Rightarrow> gmem \<Rightarrow> gmem" where
  "write_pixels T a ncolors blockPixelOffset targetsOff t prd targets =
    (if scale T then
       fold (\<lambda>p tg.
         if blockPixelOffset + p * B_Y T + snd t < filterPixels a then
           fold (\<lambda>c tg.
             tg(targetsOff + (p * B_Y T * numFilters a + c * filterPixels a * numFilters a) :=
                  scaleTargets a * tg (targetsOff + (p * B_Y T * numFilters a + c * filterPixels a * numFilters a))
                  + scaleOutput a * prd (c, p))) [0..<ncolors] tg
         else tg) [0..<pixelsPerThread T] targets
     else
       fold (\<lambda>p tg.
         if blockPixelOffset + p * B_Y T + snd t < filterPixels a then
           fold (\<lambda>c tg.
             tg(targetsOff + (p * B_Y T * numFilters a + c * filterPixels a * numFilters a) := prd (c, p)))
             [0..<ncolors] tg
         else tg) [0..<pixelsPerThread T] targets)"

subsection \<open>\<^verbatim>\<open>weight_acts_kernel2_color\<close> (lines 54 to 192)\<close>

definition blocksPerModule :: "tmpl \<Rightarrow> kargs \<Rightarrow> nat" where
  "blocksPerModule T a = numFilters a div B_X T"

definition outputModuleIdx :: "tmpl \<Rightarrow> kargs \<Rightarrow> nat \<times> nat \<Rightarrow> nat" where
  "outputModuleIdx T a b = fst b div blocksPerModule T a"

definition moduleIdx :: "tmpl \<Rightarrow> kargs \<Rightarrow> nat \<times> nat \<Rightarrow> nat" where
  "moduleIdx T a b = modulesPerBlock a * outputModuleIdx T a b"

definition blockFilterIdx :: "tmpl \<Rightarrow> kargs \<Rightarrow> nat \<times> nat \<Rightarrow> nat" where
  "blockFilterIdx T a b = B_X T * (fst b mod blocksPerModule T a)"

definition c_blockPixelOffset :: "tmpl \<Rightarrow> nat \<times> nat \<Rightarrow> nat" where
  "c_blockPixelOffset T b = snd b * B_Y T * pixelsPerThread T"

definition c_targetsOff :: "tmpl \<Rightarrow> kargs \<Rightarrow> nat \<times> nat \<Rightarrow> nat \<times> nat \<Rightarrow> nat" where
  "c_targetsOff T a b t =
     (outputModuleIdx T a b * numFilters a) * filterPixels a * numColors T
     + c_blockPixelOffset T b * numFilters a
     + blockFilterIdx T a b
     + snd t * numFilters a + fst t"

definition c_pxc :: "tmpl \<Rightarrow> kargs \<Rightarrow> nat \<times> nat \<Rightarrow> nat \<Rightarrow> nat \<times> nat" where
  "c_pxc T a b k = ((c_blockPixelOffset T b + k) div filterSize a, (c_blockPixelOffset T b + k) mod filterSize a)"

definition c_accumulate :: "tmpl \<Rightarrow> nat \<times> nat \<Rightarrow> shmem \<Rightarrow> shmem \<Rightarrow> regs \<Rightarrow> regs" where
  "c_accumulate T t shImages shHidActs prd =
     fold (\<lambda>p. fold (\<lambda>i. fold (\<lambda>c pr.
        pr((c, p) := pr (c, p)
            + shImages ((snd t + p * B_Y T + c * pixelsPerThread T * B_Y T) * preloadCases T + i)
              * shHidActs (fst t * (preloadCases T + 1) + i)))
       [0..<numColors T]) [0..<preloadCases T]) [0..<pixelsPerThread T] prd"

definition weight_acts_kernel2_color_run ::
  "tmpl \<Rightarrow> kargs \<Rightarrow> nat \<times> nat \<Rightarrow> nat \<times> nat \<Rightarrow> gmem \<Rightarrow> gmem \<Rightarrow> (nat \<times> nat \<Rightarrow> shmem \<times> shmem)
     \<Rightarrow> gmem \<Rightarrow> gmem" where
  "weight_acts_kernel2_color_run T a gridDim blockDim images hidActs junk targets =
     fold (\<lambda>b. run_block (dim3_ids blockDim)
                  [moduleIdx T a b ..< moduleIdx T a b + modulesPerBlock a]
                  (for_range (numImages a) (preloadCases T))
                  (load_images T a images (B_Y T * pixelsPerThread T) (numColors T)
                     (c_blockPixelOffset T b) (c_pxc T a b) 0)
                  (\<lambda>t m. load_hidActs T a hidActs (B_X T) (hidActsOff T a (blockFilterIdx T a b) (moduleIdx T a b) t m) t)
                  (c_accumulate T)
                  (\<lambda>t. write_pixels T a (numColors T) (c_blockPixelOffset T b) (c_targetsOff T a b t) t)
                  (junk b))
       (dim3_ids gridDim) targets"

subsection \<open>\<^verbatim>\<open>weight_acts_kernel2_manycolor\<close> (lines 227 to 379)\<close>

definition LO16 :: "nat \<Rightarrow> nat" where
  "LO16 x = x AND 0xFFFF"

definition HI16 :: "nat \<Rightarrow> nat" where
  "HI16 x = drop_bit 16 x"

definition blockGroupIdx :: "kargs \<Rightarrow> nat \<Rightarrow> nat" where
  "blockGroupIdx a bfi = bfi div numFiltersPerGroup a"

definition mc_groupColorIdx :: "tmpl \<Rightarrow> kargs \<Rightarrow> nat \<times> nat \<Rightarrow> nat" where
  "mc_groupColorIdx T a b = blockGroupIdx a (blockFilterIdx T a b) * numFilterColors a"

definition mc_blockPixelOffset :: "tmpl \<Rightarrow> kargs \<Rightarrow> nat \<times> nat \<Rightarrow> nat" where
  "mc_blockPixelOffset T a b =
     (snd b div (numFilterColors a div colorsPerThread T)) * B_Y T * pixelsPerThread T"

definition blockColorIdx :: "tmpl \<Rightarrow> kargs \<Rightarrow> nat \<times> nat \<Rightarrow> nat" where
  "blockColorIdx T a b = (snd b mod (numFilterColors a div colorsPerThread T)) * colorsPerThread T"

definition mc_imagesOff :: "tmpl \<Rightarrow> kargs \<Rightarrow> nat \<times> nat \<Rightarrow> nat" where
  "mc_imagesOff T a b = (mc_groupColorIdx T a b + blockColorIdx T a b) * imgPixels a * imgStride a"

definition mc_targetsOff :: "tmpl \<Rightarrow> kargs \<Rightarrow> nat \<times> nat \<Rightarrow> nat \<times> nat \<Rightarrow> nat" where
  "mc_targetsOff T a b t =
     outputModuleIdx T a b * numFilters a * filterPixels a * numFilterColors a
     + blockColorIdx T a b * filterPixels a * numFilters a
     + mc_blockPixelOffset T a b * numFilters a
     + blockFilterIdx T a b
     + snd t * numFilters a + fst t"

text \<open>
  The table \<open>pxDivs\<close> (lines 283 to 286): entry \<open>k\<close> is written by the thread with
  \<open>tidx = k\<close> before the first barrier; the gather reads entries below \<open>B_Y * pixelsPerThread\<close>.
\<close>

definition mc_pxDivs :: "tmpl \<Rightarrow> kargs \<Rightarrow> nat \<times> nat \<Rightarrow> nat \<Rightarrow> nat" where
  "mc_pxDivs T a b k =
     ((mc_blockPixelOffset T a b + k) div filterSize a)
     + push_bit 16 ((mc_blockPixelOffset T a b + k) mod filterSize a)"

definition mc_pxc :: "tmpl \<Rightarrow> kargs \<Rightarrow> nat \<times> nat \<Rightarrow> nat \<Rightarrow> nat \<times> nat" where
  "mc_pxc T a b k = (LO16 (mc_pxDivs T a b k), HI16 (mc_pxDivs T a b k))"

definition mc_accumulate :: "tmpl \<Rightarrow> nat \<times> nat \<Rightarrow> shmem \<Rightarrow> shmem \<Rightarrow> regs \<Rightarrow> regs" where
  "mc_accumulate T t shImages shHidActs prd =
     fold (\<lambda>c. fold (\<lambda>i. fold (\<lambda>p pr.
        pr((c, p) := pr (c, p)
            + shImages ((snd t + p * B_Y T + c * pixelsPerThread T * B_Y T) * preloadCases T + i)
              * shHidActs (fst t * (preloadCases T + 1) + i)))
       [0..<pixelsPerThread T]) [0..<preloadCases T]) [0..<colorsPerThread T] prd"

definition weight_acts_kernel2_manycolor_run ::
  "tmpl \<Rightarrow> kargs \<Rightarrow> nat \<times> nat \<Rightarrow> nat \<times> nat \<Rightarrow> gmem \<Rightarrow> gmem \<Rightarrow> (nat \<times> nat \<Rightarrow> shmem \<times> shmem)
     \<Rightarrow> gmem \<Rightarrow> gmem" where
  "weight_acts_kernel2_manycolor_run T a gridDim blockDim images hidActs junk targets =
     fold (\<lambda>b. run_block (dim3_ids blockDim)
                  [moduleIdx T a b ..< moduleIdx T a b + modulesPerBlock a]
                  (for_range (numImages a) (preloadCases T))
                  (load_images T a images (B_Y T * pixelsPerThread T) (colorsPerThread T)
                     (mc_blockPixelOffset T a b) (mc_pxc T a b) (mc_imagesOff T a b))
                  (\<lambda>t m. load_hidActs T a hidActs (B_X T)
                            (hidActsOff T a (blockFilterIdx T a b) (moduleIdx T a b) t m) t)
                  (mc_accumulate T)
                  (\<lambda>t. write_pixels T a (colorsPerThread T) (mc_blockPixelOffset T a b)
                          (mc_targetsOff T a b t) t)
                  (junk b))
       (dim3_ids gridDim) targets"

subsection \<open>\<^verbatim>\<open>weight_acts_kernel2_manycolor_manyfilter\<close> (lines 411 to 561)\<close>

definition numFilterBlocks :: "tmpl \<Rightarrow> kargs \<Rightarrow> nat" where
  "numFilterBlocks T a = numFilters a div (B_X T * filtersPerThread T)"

definition mf_outputModuleIdx :: "tmpl \<Rightarrow> kargs \<Rightarrow> nat \<times> nat \<Rightarrow> nat" where
  "mf_outputModuleIdx T a b = fst b div numFilterBlocks T a"

definition mf_moduleIdx :: "tmpl \<Rightarrow> kargs \<Rightarrow> nat \<times> nat \<Rightarrow> nat" where
  "mf_moduleIdx T a b = modulesPerBlock a * mf_outputModuleIdx T a b"

definition mf_blockFilterIdx :: "tmpl \<Rightarrow> kargs \<Rightarrow> nat \<times> nat \<Rightarrow> nat" where
  "mf_blockFilterIdx T a b = filtersPerThread T * B_X T * (fst b mod numFilterBlocks T a)"

definition mf_blockPixelOffset :: "tmpl \<Rightarrow> kargs \<Rightarrow> nat \<times> nat \<Rightarrow> nat" where
  "mf_blockPixelOffset T a b = (snd b div (numFilterColors a div colorsPerThread T)) * B_Y T"

definition filterColorIdx :: "tmpl \<Rightarrow> kargs \<Rightarrow> nat \<times> nat \<Rightarrow> nat" where
  "filterColorIdx T a b = (snd b mod (numFilterColors a div colorsPerThread T)) * colorsPerThread T"

definition imgColorIdx :: "tmpl \<Rightarrow> kargs \<Rightarrow> nat \<times> nat \<Rightarrow> nat" where
  "imgColorIdx T a b =
     filterColorIdx T a b + blockGroupIdx a (mf_blockFilterIdx T a b) * numFilterColors a"

definition mf_imagesOff :: "tmpl \<Rightarrow> kargs \<Rightarrow> nat \<times> nat \<Rightarrow> nat" where
  "mf_imagesOff T a b = imgColorIdx T a b * imgPixels a * imgStride a"

definition mf_targetsOff :: "tmpl \<Rightarrow> kargs \<Rightarrow> nat \<times> nat \<Rightarrow> nat \<times> nat \<Rightarrow> nat" where
  "mf_targetsOff T a b t =
     mf_outputModuleIdx T a b * numFilters a * filterPixels a * numFilterColors a
     + filterColorIdx T a b * filterPixels a * numFilters a
     + mf_blockPixelOffset T a b * numFilters a
     + mf_blockFilterIdx T a b
     + snd t * numFilters a + fst t"

text \<open>
  The tables \<open>pxDivs\<close> and \<open>pxMods\<close> (lines 467 to 472): entry \<open>k\<close> is written by the thread
  with \<open>tidx = k\<close> before the first barrier; the gather reads entries below \<open>B_Y\<close>.
\<close>

definition mf_pxc :: "tmpl \<Rightarrow> kargs \<Rightarrow> nat \<times> nat \<Rightarrow> nat \<Rightarrow> nat \<times> nat" where
  "mf_pxc T a b k = ((mf_blockPixelOffset T a b + k) div filterSize a,
                     (mf_blockPixelOffset T a b + k) mod filterSize a)"

definition mf_accumulate :: "tmpl \<Rightarrow> nat \<times> nat \<Rightarrow> shmem \<Rightarrow> shmem \<Rightarrow> regs \<Rightarrow> regs" where
  "mf_accumulate T t shImages shHidActs prd =
     fold (\<lambda>c. fold (\<lambda>i. fold (\<lambda>f pr.
        pr((c, f) := pr (c, f)
            + shImages ((snd t + c * B_Y T) * preloadCases T + i)
              * shHidActs ((fst t + f * B_X T) * (preloadCases T + 1) + i)))
       [0..<filtersPerThread T]) [0..<preloadCases T]) [0..<colorsPerThread T] prd"

definition mf_write ::
  "tmpl \<Rightarrow> kargs \<Rightarrow> nat \<Rightarrow> nat \<Rightarrow> nat \<times> nat \<Rightarrow> regs \<Rightarrow> gmem \<Rightarrow> gmem" where
  "mf_write T a blockPixelOffset targetsOff t prd targets =
    (if blockPixelOffset + snd t < filterPixels a then
       if scale T then
         fold (\<lambda>f. fold (\<lambda>c tg.
             tg(targetsOff + (c * filterPixels a * numFilters a + f * B_X T) :=
                  scaleTargets a * tg (targetsOff + (c * filterPixels a * numFilters a + f * B_X T))
                  + scaleOutput a * prd (c, f))) [0..<colorsPerThread T])
           [0..<filtersPerThread T] targets
       else
         fold (\<lambda>f. fold (\<lambda>c tg.
             tg(targetsOff + (c * filterPixels a * numFilters a + f * B_X T) := prd (c, f)))
               [0..<colorsPerThread T])
           [0..<filtersPerThread T] targets
     else targets)"

definition weight_acts_kernel2_manycolor_manyfilter_run ::
  "tmpl \<Rightarrow> kargs \<Rightarrow> nat \<times> nat \<Rightarrow> nat \<times> nat \<Rightarrow> gmem \<Rightarrow> gmem \<Rightarrow> (nat \<times> nat \<Rightarrow> shmem \<times> shmem)
     \<Rightarrow> gmem \<Rightarrow> gmem" where
  "weight_acts_kernel2_manycolor_manyfilter_run T a gridDim blockDim images hidActs junk targets =
     fold (\<lambda>b. run_block (dim3_ids blockDim)
                  [mf_moduleIdx T a b ..< mf_moduleIdx T a b + modulesPerBlock a]
                  (for_range (numImages a) (preloadCases T))
                  (load_images T a images (B_Y T) (colorsPerThread T)
                     (mf_blockPixelOffset T a b) (mf_pxc T a b) (mf_imagesOff T a b))
                  (\<lambda>t m. load_hidActs T a hidActs (B_X T * filtersPerThread T)
                            (hidActsOff T a (mf_blockFilterIdx T a b) (mf_moduleIdx T a b) t m) t)
                  (mf_accumulate T)
                  (\<lambda>t. mf_write T a (mf_blockPixelOffset T a b) (mf_targetsOff T a b t) t)
                  (junk b))
       (dim3_ids gridDim) targets"

section \<open>The whole routine\<close>

text \<open>
  The launch runs the selected kernel on the device buffers. \<open>junk\<close> gives, for every
  block, the contents of the two shared arrays before the block writes them.
\<close>

definition run_launch ::
  "launch \<Rightarrow> gmem \<Rightarrow> gmem \<Rightarrow> (nat \<times> nat \<Rightarrow> shmem \<times> shmem) \<Rightarrow> gmem \<Rightarrow> gmem" where
  "run_launch L images hidActs junk targets =
     (case l_kernel L of
        weight_acts_kernel2_color \<Rightarrow>
          weight_acts_kernel2_color_run (l_tmpl L) (l_args L) (l_blocks L) (l_threads L)
            images hidActs junk targets
      | weight_acts_kernel2_manycolor \<Rightarrow>
          weight_acts_kernel2_manycolor_run (l_tmpl L) (l_args L) (l_blocks L) (l_threads L)
            images hidActs junk targets
      | weight_acts_kernel2_manycolor_manyfilter \<Rightarrow>
          weight_acts_kernel2_manycolor_manyfilter_run (l_tmpl L) (l_args L) (l_blocks L) (l_threads L)
            images hidActs junk targets)"

text \<open>
  \<^verbatim>\<open>convWeightActs\<close> with twelve arguments (line 585): the tests and the shape step of
  \<open>convWeightActs_launch\<close>, then the kernel; the result is the error, or the target tensor.
\<close>

definition convWeightActs ::
  "(nat \<times> nat \<Rightarrow> shmem \<times> shmem) \<Rightarrow> NVMatrix \<Rightarrow> NVMatrix \<Rightarrow> NVMatrix
     \<Rightarrow> int \<Rightarrow> int \<Rightarrow> int \<Rightarrow> int \<Rightarrow> int \<Rightarrow> int \<Rightarrow> real \<Rightarrow> real \<Rightarrow> int \<Rightarrow> error + NVMatrix" where
  "convWeightActs junk images hidActs targets nmx fs ps ms nic ng sT sO mS0 =
     (case convWeightActs_launch images hidActs targets nmx fs ps ms nic ng sT sO mS0 of
        Inl e \<Rightarrow> Inl e
      | Inr (targets', None) \<Rightarrow> Inr targets'
      | Inr (targets', Some L) \<Rightarrow>
          Inr (targets'\<lparr>getDevData :=
                 run_launch L (getDevData images) (getDevData hidActs) junk (getDevData targets')\<rparr>))"

text \<open>\<^verbatim>\<open>convWeightActs\<close> with nine arguments (lines 580 to 583).\<close>

definition convWeightActs9 ::
  "(nat \<times> nat \<Rightarrow> shmem \<times> shmem) \<Rightarrow> NVMatrix \<Rightarrow> NVMatrix \<Rightarrow> NVMatrix
     \<Rightarrow> int \<Rightarrow> int \<Rightarrow> int \<Rightarrow> int \<Rightarrow> int \<Rightarrow> int \<Rightarrow> error + NVMatrix" where
  "convWeightActs9 junk images hidActs targets nmx fs ps ms nic ng =
     convWeightActs junk images hidActs targets nmx fs ps ms nic ng 0 1 0"

text \<open>The number of filters as \<^verbatim>\<open>convWeightActs\<close> computes it at line 595.\<close>

definition host_numFilters :: "NVMatrix \<Rightarrow> int \<Rightarrow> int" where
  "host_numFilters hidActs nmx = int (getNumRows hidActs) sdiv (nmx * nmx)"

text \<open>
  All the tests that \<^verbatim>\<open>convWeightActs\<close> makes before the launch (the divisors of lines 589,
  592 and 595 and the assertions of lines 598 to 662), as one predicate of the call.
\<close>

definition convWeightActs_checks ::
  "NVMatrix \<Rightarrow> NVMatrix \<Rightarrow> NVMatrix \<Rightarrow> int \<Rightarrow> int \<Rightarrow> int \<Rightarrow> int \<Rightarrow> int \<Rightarrow> int \<Rightarrow> real \<Rightarrow> real \<Rightarrow> int \<Rightarrow> bool" where
  "convWeightActs_checks images hidActs targets nmx fs ps ms nic ng sT sO mS0 =
    (ng \<noteq> 0 \<and> nic \<noteq> 0 \<and> nmx * nmx \<noteq> 0 \<and>
     (let nfc = nic sdiv ng;
          imgPixels = int (getNumRows images) sdiv nic;
          imgSize = int (isqrt (nat imgPixels));
          numModules = nmx * nmx;
          nf = int (getNumRows hidActs) sdiv numModules;
          mS = (if mS0 = 0 then numModules else mS0)
      in nic smod ng = 0 \<and> nf smod (16 * ng) = 0
       \<and> (ng > 1 \<or> (nic > 0 \<and> (nic \<le> 3 \<or> nic smod 4 = 0)))
       \<and> (ng = 1 \<or> nfc smod 4 = 0)
       \<and> imgSize * imgSize = imgPixels
       \<and> int (getNumRows images) = imgPixels * nic
       \<and> numModules smod mS = 0
       \<and> getNumCols hidActs = getNumCols images
       \<and> ps \<le> 0 \<and> ps + (numModules - 1) * ms + fs \<ge> imgSize
       \<and> ms \<le> fs
       \<and> numModules * nf = int (getNumRows hidActs)
       \<and> \<not> isTrans images \<and> \<not> isTrans hidActs \<and> isContiguous hidActs
       \<and> \<not> isTrans targets \<and> isContiguous targets
       \<and> (nfc > 3 \<or> ng = 1)
       \<and> ((sT = 0 \<and> sO = 1) \<or>
            (int (getNumRows targets) = (numModules sdiv mS) * nfc * (fs * fs)
             \<and> int (getNumCols targets) = nf))))"

text \<open>A contiguous, untransposed tensor of \<open>r\<close> rows and \<open>c\<close> columns, filled with zeros.\<close>

definition tensor :: "nat \<Rightarrow> nat \<Rightarrow> NVMatrix" where
  "tensor r c = \<lparr>getNumRows = r, getNumCols = c, getStride = c, isTrans = False,
                  isContiguous = True, getDevData = (\<lambda>_. 0)\<rparr>"

section \<open>The reference: what the routine is to compute\<close>

text \<open>
  The image position that filter pixel \<open>px\<close> (row \<open>px div filterSize\<close>, column
  \<open>px mod filterSize\<close> of the filter) has when the filter is applied at module \<open>m\<close>:
  the module's corner is \<open>paddingStart\<close> plus \<open>moduleStride\<close> times the module's row or
  column in the grid of \<open>numModulesX\<close> by \<open>numModulesX\<close> modules.
\<close>

definition spec_pixel :: "kargs \<Rightarrow> nat \<Rightarrow> nat \<Rightarrow> int \<times> int" where
  "spec_pixel a m px =
     (paddingStart a + int (m div nat (numModulesX a)) * moduleStride a + int (px div filterSize a),
      paddingStart a + int (m mod nat (numModulesX a)) * moduleStride a + int (px mod filterSize a))"

text \<open>
  \<open>image[color, pixel mapped from the filter pixel, n]\<close>: the value of the image tensor
  (row \<open>color * imgPixels + y * imgSize + x\<close>, column \<open>n\<close>, rows \<open>imgStride\<close> apart), and
  zero where the mapped position is outside the image.
\<close>

definition spec_image :: "kargs \<Rightarrow> gmem \<Rightarrow> nat \<Rightarrow> nat \<Rightarrow> nat \<Rightarrow> nat \<Rightarrow> real" where
  "spec_image a images color m px n =
     (let (y, x) = spec_pixel a m px in
      if 0 \<le> y \<and> y < int (imgSize a) \<and> 0 \<le> x \<and> x < int (imgSize a)
      then images ((color * imgPixels a + (nat y * imgSize a + nat x)) * imgStride a + n)
      else 0)"

text \<open>Filter pixel \<open>px\<close> of module \<open>m\<close> lies on the image.\<close>

definition spec_inside :: "kargs \<Rightarrow> nat \<Rightarrow> nat \<Rightarrow> bool" where
  "spec_inside a m px =
     (let (y, x) = spec_pixel a m px in
      0 \<le> y \<and> y < int (imgSize a) \<and> 0 \<le> x \<and> x < int (imgSize a))"

text \<open>\<open>hidAct[f, m, n]\<close>: row \<open>f * numModules + m\<close>, column \<open>n\<close> of the contiguous tensor \<open>hidActs\<close>.\<close>

definition spec_hidAct :: "kargs \<Rightarrow> gmem \<Rightarrow> nat \<Rightarrow> nat \<Rightarrow> nat \<Rightarrow> real" where
  "spec_hidAct a hidActs f m n = hidActs ((f * numModules a + m) * numImages a + n)"

text \<open>
  The direct reduction for output-module block \<open>om\<close>, colour \<open>c\<close> of the filter, filter
  pixel \<open>px\<close> and filter \<open>f\<close>: the sum over the \<open>modulesPerBlock\<close> modules folded into the
  block and over all images. The colour of the image is \<open>c\<close> within the group of the filter.
\<close>

definition spec_weight_grad :: "kargs \<Rightarrow> gmem \<Rightarrow> gmem \<Rightarrow> nat \<Rightarrow> nat \<Rightarrow> nat \<Rightarrow> nat \<Rightarrow> real" where
  "spec_weight_grad a images hidActs om c px f =
     (\<Sum>m = om * modulesPerBlock a ..< om * modulesPerBlock a + modulesPerBlock a.
        \<Sum>n < numImages a.
          spec_image a images ((f div numFiltersPerGroup a) * numFilterColors a + c) m px n
          * spec_hidAct a hidActs f m n)"

text \<open>
  The offset in \<open>targets\<close> of the entry for \<open>(om, c, px, f)\<close>: row
  \<open>(om * numFilterColors + c) * filterPixels + px\<close>, column \<open>f\<close>, of a contiguous tensor
  with \<open>numFilters\<close> columns.
\<close>

definition target_index :: "kargs \<Rightarrow> nat \<Rightarrow> nat \<Rightarrow> nat \<Rightarrow> nat \<Rightarrow> nat" where
  "target_index a om c px f = ((om * numFilterColors a + c) * filterPixels a + px) * numFilters a + f"

text \<open>The reference value for offset \<open>x\<close> of \<open>targets\<close>: the offset decoded into \<open>(om, c, px, f)\<close>.\<close>

definition target_ref :: "kargs \<Rightarrow> gmem \<Rightarrow> gmem \<Rightarrow> nat \<Rightarrow> real" where
  "target_ref a images hidActs x =
     spec_weight_grad a images hidActs
       (x div (numFilters a * filterPixels a * numFilterColors a))
       ((x div (numFilters a * filterPixels a)) mod numFilterColors a)
       ((x div numFilters a) mod filterPixels a)
       (x mod numFilters a)"

text \<open>
  The reference for the whole target buffer with \<open>nom\<close> output-module blocks:
  \<open>scaleTargets\<close> times the prior value plus \<open>scaleOutput\<close> times the direct reduction at
  every offset of the result tensor, the prior value at every other offset.
\<close>

definition reference_result :: "kargs \<Rightarrow> nat \<Rightarrow> gmem \<Rightarrow> gmem \<Rightarrow> gmem \<Rightarrow> gmem" where
  "reference_result a nom images hidActs targets =
     (\<lambda>x. if x < nom * numFilterColors a * filterPixels a * numFilters a
          then scaleTargets a * targets x + scaleOutput a * target_ref a images hidActs x
          else targets x)"

text \<open>The first \<open>n\<close> values of a buffer (the entries of a contiguous tensor of \<open>n\<close> elements).\<close>

definition entries :: "nat \<Rightarrow> gmem \<Rightarrow> gmem" where
  "entries n d = (\<lambda>x. if x < n then d x else 0)"

subsection \<open>The call seen from the kernels\<close>

text \<open>The arguments that \<^verbatim>\<open>convWeightActs\<close> passes to the kernel it launches, as a function of the call.\<close>

definition host_args ::
  "NVMatrix \<Rightarrow> NVMatrix \<Rightarrow> int \<Rightarrow> int \<Rightarrow> int \<Rightarrow> int \<Rightarrow> int \<Rightarrow> int \<Rightarrow> real \<Rightarrow> real \<Rightarrow> int \<Rightarrow> kargs" where
  "host_args images hidActs nmx fs ps ms nic ng sT sO mS0 =
     \<lparr>numImages = getNumCols images, numFilters = nat (host_numFilters hidActs nmx),
      numModulesX = nmx, imgSize = isqrt (nat (int (getNumRows images) sdiv nic)),
      filterSize = nat fs, paddingStart = ps, moduleStride = ms, imgStride = getStride images,
      numImgColors = nat nic, modulesPerBlock = nat (if mS0 = 0 then nmx * nmx else mS0),
      numGroups = nat ng, scaleTargets = sT, scaleOutput = sO\<rparr>"

text \<open>\<^verbatim>\<open>numModules / moduleSum\<close>: the number of output-module blocks of a call.\<close>

definition host_nom :: "int \<Rightarrow> int \<Rightarrow> nat" where
  "host_nom nmx mS0 = nat ((nmx * nmx) sdiv (if mS0 = 0 then nmx * nmx else mS0))"

text \<open>\<^verbatim>\<open>(numModules / moduleSum) * numFilterColors * filterPixels\<close>: the rows of the result (lines 658 and 661).\<close>

definition result_rows :: "int \<Rightarrow> int \<Rightarrow> int \<Rightarrow> int \<Rightarrow> int \<Rightarrow> nat" where
  "result_rows nmx fs nic ng mS0 =
     nat (((nmx * nmx) sdiv (if mS0 = 0 then nmx * nmx else mS0)) * (nic sdiv ng) * (fs * fs))"

text \<open>The direct reduction for the offsets of the result of a call.\<close>

definition host_ref ::
  "NVMatrix \<Rightarrow> NVMatrix \<Rightarrow> int \<Rightarrow> int \<Rightarrow> int \<Rightarrow> int \<Rightarrow> int \<Rightarrow> int \<Rightarrow> int \<Rightarrow> nat \<Rightarrow> real" where
  "host_ref images hidActs nmx fs ps ms nic ng mS0 =
     target_ref (host_args images hidActs nmx fs ps ms nic ng 0 1 mS0) (getDevData images) (getDevData hidActs)"

subsection \<open>Launches that a kernel accepts\<close>

text \<open>
  The block shape that the gathers need: \<open>B_X * B_Y\<close> threads fill \<open>loadStep\<close> rows of
  \<open>preloadCases\<close> columns per iteration (\<^verbatim>\<open>B_Y * B_X\<close> is divisible by \<^verbatim>\<open>preloadCases\<close>).
\<close>

definition wf_block :: "tmpl \<Rightarrow> bool" where
  "wf_block T \<longleftrightarrow> 0 < preloadCases T \<and> 0 < loadStep T \<and> 0 < B_X T
                   \<and> B_X T * B_Y T = loadStep T * preloadCases T"

text \<open>
  The grid of a launch with \<open>nom\<close> output-module blocks, for a kernel with \<open>ppt\<close> pixels,
  \<open>fpt\<close> filters and \<open>nc\<close> colours per thread (1 where the kernel has no such parameter):
  \<^verbatim>\<open>blockIdx.x\<close> ranges over module blocks and blocks of \<open>B_X * fpt\<close> filters, \<^verbatim>\<open>blockIdx.y\<close>
  over blocks of \<open>B_Y * ppt\<close> filter pixels and blocks of \<open>nc\<close> colours; the counts divide
  as the comments at the head of the kernels require.
\<close>

definition wf_grid :: "tmpl \<Rightarrow> kargs \<Rightarrow> nat \<Rightarrow> nat \<Rightarrow> nat \<Rightarrow> nat \<Rightarrow> nat \<times> nat \<Rightarrow> bool" where
  "wf_grid T a ppt fpt nc nom grid \<longleftrightarrow>
     0 < B_X T \<and> 0 < B_Y T \<and> 0 < fpt \<and> 0 < ppt \<and> 0 < nc
     \<and> B_X T * fpt dvd numFilters a \<and> nc dvd numFilterColors a
     \<and> grid = (nom * (numFilters a div (B_X T * fpt)),
               ((filterPixels a + B_Y T * ppt - 1) div (B_Y T * ppt)) * (numFilterColors a div nc))"

text \<open>
  What the kernels require beyond the grid: the gathers fill whole rows, the number of
  images is a multiple of \<open>preloadCases\<close> unless the instantiation checks the case bounds,
  and a block of filters lies within one group.
\<close>

definition wf_launch :: "tmpl \<Rightarrow> kargs \<Rightarrow> nat \<Rightarrow> nat \<Rightarrow> bool" where
  "wf_launch T a ppt fpt \<longleftrightarrow>
     wf_block T \<and> loadStep T dvd B_Y T * ppt \<and> loadStep T dvd B_X T * fpt
     \<and> 0 < numModulesX a
     \<and> (checkCaseBounds T \<or> preloadCases T dvd numImages a)
     \<and> B_X T * fpt dvd numFiltersPerGroup a"

text \<open>
  A tiling variant (kernel, instantiation, grid and block) that applies to a shape with
  \<open>nom\<close> output-module blocks. An instantiation without \<open>scale\<close> applies when
  \<open>scaleTargets = 0\<close> and \<open>scaleOutput = 1\<close>. \<^verbatim>\<open>weight_acts_kernel2_color\<close> takes all the
  colours of an ungrouped image; \<^verbatim>\<open>weight_acts_kernel2_manycolor\<close> packs two pixel
  coordinates into the halves of an \<^verbatim>\<open>int\<close>, which bounds \<open>filterSize\<close>.
\<close>

definition variant_ok :: "launch \<Rightarrow> nat \<Rightarrow> bool" where
  "variant_ok L nom =
     (let T = l_tmpl L; a = l_args L in
      l_threads L = (B_X T, B_Y T)
      \<and> (scale T \<or> (scaleTargets a = 0 \<and> scaleOutput a = 1))
      \<and> (case l_kernel L of
           weight_acts_kernel2_color \<Rightarrow>
             wf_grid T a (pixelsPerThread T) 1 (numColors T) nom (l_blocks L)
             \<and> wf_launch T a (pixelsPerThread T) 1
             \<and> numFilterColors a = numColors T \<and> numGroups a = 1
         | weight_acts_kernel2_manycolor \<Rightarrow>
             wf_grid T a (pixelsPerThread T) 1 (colorsPerThread T) nom (l_blocks L)
             \<and> wf_launch T a (pixelsPerThread T) 1
             \<and> filterSize a \<le> 32768
         | weight_acts_kernel2_manycolor_manyfilter \<Rightarrow>
             wf_grid T a 1 (filtersPerThread T) (colorsPerThread T) nom (l_blocks L)
             \<and> wf_launch T a 1 (filtersPerThread T)))"

subsection \<open>Vocabulary of the kernel proofs\<close>

text \<open>
  A step \<open>f\<close> on a shared array stores \<open>V x\<close> in every cell \<open>x\<close> of \<open>W\<close> and leaves the
  others; a step on the registers adds \<open>D k\<close> to register \<open>k\<close>; a step on device memory
  replaces the value \<open>v\<close> of every cell \<open>x\<close> of \<open>W\<close> by \<open>g x v\<close> and leaves the others.
\<close>

definition writes :: "(nat \<Rightarrow> real) \<Rightarrow> nat set \<Rightarrow> (shmem \<Rightarrow> shmem) \<Rightarrow> bool" where
  "writes V W f \<longleftrightarrow> (\<forall>sh x. f sh x = (if x \<in> W then V x else sh x))"

definition adds :: "('k \<Rightarrow> real) \<Rightarrow> (('k \<Rightarrow> real) \<Rightarrow> ('k \<Rightarrow> real)) \<Rightarrow> bool" where
  "adds D f \<longleftrightarrow> (\<forall>pr k. f pr k = pr k + D k)"

definition rmw :: "(nat \<Rightarrow> real \<Rightarrow> real) \<Rightarrow> nat set \<Rightarrow> (gmem \<Rightarrow> gmem) \<Rightarrow> bool" where
  "rmw g W f \<longleftrightarrow> (\<forall>mem x. f mem x = (if x \<in> W then g x (mem x) else mem x))"

text \<open>The value that the gather of hidden activations leaves in cell \<open>x\<close> of \<open>shHidActs\<close>.\<close>

definition hid_cell_val :: "tmpl \<Rightarrow> kargs \<Rightarrow> gmem \<Rightarrow> nat \<Rightarrow> nat \<Rightarrow> nat \<Rightarrow> nat \<Rightarrow> real" where
  "hid_cell_val T a hidActs bfi m ci x =
     spec_hidAct a hidActs (bfi + x div (preloadCases T + 1)) m (ci + x mod (preloadCases T + 1))"

text \<open>
  The value that the image gather stores for colour \<open>c\<close>, pixel \<open>q\<close> of the block and
  column \<open>i\<close> of the tile that starts at image \<open>ci\<close>, and the value it leaves in cell \<open>x\<close>
  of \<open>shImages\<close>.
\<close>

definition img_load_val ::
  "tmpl \<Rightarrow> kargs \<Rightarrow> gmem \<Rightarrow> nat \<Rightarrow> (nat \<Rightarrow> nat \<times> nat) \<Rightarrow> nat \<Rightarrow> nat \<Rightarrow> nat \<Rightarrow> nat \<Rightarrow> nat \<Rightarrow> nat \<Rightarrow> real" where
  "img_load_val T a images bPO pxc off m ci c q i =
     (if q + bPO < filterPixels a \<and> (\<not> checkCaseBounds T \<or> ci + i < numImages a) then
        (let pxY = imgLoadModPosY a m + int (fst (pxc q));
             pxX = imgLoadModPosX a m + int (snd (pxc q)) in
         if pxY \<ge> 0 \<and> pxY < int (imgSize a) \<and> pxX \<ge> 0 \<and> pxX < int (imgSize a) then
           images (off + i + (ci + c * imgPixels a * imgStride a
                    + nat ((pxY * int (imgSize a) + pxX) * int (imgStride a))))
         else 0)
      else 0)"

definition img_cell_val ::
  "tmpl \<Rightarrow> kargs \<Rightarrow> gmem \<Rightarrow> nat \<Rightarrow> nat \<Rightarrow> (nat \<Rightarrow> nat \<times> nat) \<Rightarrow> nat \<Rightarrow> nat \<Rightarrow> nat \<Rightarrow> nat \<Rightarrow> real" where
  "img_cell_val T a images rows bPO pxc off m ci x =
     img_load_val T a images bPO pxc off m ci
       ((x div preloadCases T) div rows) ((x div preloadCases T) mod rows) (x mod preloadCases T)"

text \<open>The image value gathered for colour \<open>c\<close>, block pixel \<open>q\<close>, module \<open>m\<close> and image \<open>n\<close>.\<close>

definition img_gather_val ::
  "kargs \<Rightarrow> gmem \<Rightarrow> nat \<Rightarrow> (nat \<Rightarrow> nat \<times> nat) \<Rightarrow> nat \<Rightarrow> nat \<Rightarrow> nat \<Rightarrow> nat \<Rightarrow> nat \<Rightarrow> real" where
  "img_gather_val a images bPO pxc off m c q n =
     (if q + bPO < filterPixels a then
        (let pxY = imgLoadModPosY a m + int (fst (pxc q));
             pxX = imgLoadModPosX a m + int (snd (pxc q)) in
         if pxY \<ge> 0 \<and> pxY < int (imgSize a) \<and> pxX \<ge> 0 \<and> pxX < int (imgSize a) then
           images (off + n + c * imgPixels a * imgStride a
                    + nat ((pxY * int (imgSize a) + pxX) * int (imgStride a)))
         else 0)
      else 0)"

text \<open>
  The coordinates that the kernels give to a register of thread \<open>t\<close> of block \<open>b\<close>: output
  module block, filter (register \<open>j\<close>), filter pixel (register \<open>p\<close>) and colour (register
  \<open>c\<close>); the first filter pixel and the first filter of the block.
\<close>

definition g_om :: "tmpl \<Rightarrow> kargs \<Rightarrow> nat \<Rightarrow> nat \<times> nat \<Rightarrow> nat" where
  "g_om T a fpt b = fst b div (numFilters a div (B_X T * fpt))"

definition g_flt :: "tmpl \<Rightarrow> kargs \<Rightarrow> nat \<Rightarrow> nat \<times> nat \<Rightarrow> nat \<times> nat \<Rightarrow> nat \<Rightarrow> nat" where
  "g_flt T a fpt b t j = (fst b mod (numFilters a div (B_X T * fpt))) * (B_X T * fpt) + (j * B_X T + fst t)"

definition g_px :: "tmpl \<Rightarrow> kargs \<Rightarrow> nat \<Rightarrow> nat \<Rightarrow> nat \<times> nat \<Rightarrow> nat \<times> nat \<Rightarrow> nat \<Rightarrow> nat" where
  "g_px T a ppt nc b t p = (snd b div (numFilterColors a div nc)) * (B_Y T * ppt) + (p * B_Y T + snd t)"

definition g_col :: "kargs \<Rightarrow> nat \<Rightarrow> nat \<times> nat \<Rightarrow> nat \<Rightarrow> nat" where
  "g_col a nc b c = (snd b mod (numFilterColors a div nc)) * nc + c"

definition g_bPO :: "tmpl \<Rightarrow> kargs \<Rightarrow> nat \<Rightarrow> nat \<Rightarrow> nat \<times> nat \<Rightarrow> nat" where
  "g_bPO T a ppt nc b = (snd b div (numFilterColors a div nc)) * (B_Y T * ppt)"

definition g_bF :: "tmpl \<Rightarrow> kargs \<Rightarrow> nat \<Rightarrow> nat \<times> nat \<Rightarrow> nat" where
  "g_bF T a fpt b = (fst b mod (numFilters a div (B_X T * fpt))) * (B_X T * fpt)"

text \<open>The offsets of \<open>targets\<close> that belong to the registers of thread \<open>t\<close> of block \<open>b\<close>.\<close>

definition cells :: "tmpl \<Rightarrow> kargs \<Rightarrow> nat \<Rightarrow> nat \<Rightarrow> nat \<Rightarrow> nat \<times> nat \<Rightarrow> nat \<times> nat \<Rightarrow> nat set" where
  "cells T a ppt fpt nc b t =
     {target_index a (g_om T a fpt b) (g_col a nc b c) (g_px T a ppt nc b t p) (g_flt T a fpt b t j)
      | c p j. c < nc \<and> p < ppt \<and> j < fpt \<and> g_px T a ppt nc b t p < filterPixels a}"

text \<open>The scale/blend rule of the final write, with the reference value for the written entry.\<close>

definition blend :: "tmpl \<Rightarrow> kargs \<Rightarrow> gmem \<Rightarrow> gmem \<Rightarrow> nat \<Rightarrow> real \<Rightarrow> real" where
  "blend T a images hidActs x old =
     (if scale T then scaleTargets a * old + scaleOutput a * target_ref a images hidActs x
      else target_ref a images hidActs x)"

subsection \<open>Test inputs\<close>



text \<open>
  Arguments and launches of \<^verbatim>\<open>weight_acts_kernel2_color<8, 16, 5, 32, 1, false, false>\<close> for
  32 images of one colour and 16 filters, as \<^verbatim>\<open>convWeightActs\<close> issues them when
  \<open>scaleTargets = 0\<close> and \<open>scaleOutput = 1\<close>.
\<close>

definition test_args :: "int \<Rightarrow> nat \<Rightarrow> nat \<Rightarrow> int \<Rightarrow> int \<Rightarrow> nat \<Rightarrow> kargs" where
  "test_args nmx img fs ps ms mpb =
     \<lparr>numImages = 32, numFilters = 16, numModulesX = nmx, imgSize = img, filterSize = fs,
      paddingStart = ps, moduleStride = ms, imgStride = 32, numImgColors = 1,
      modulesPerBlock = mpb, numGroups = 1, scaleTargets = 0, scaleOutput = 1\<rparr>"

definition test_launch :: "nat \<times> nat \<Rightarrow> kargs \<Rightarrow> launch" where
  "test_launch blocks a =
     \<lparr>l_kernel = weight_acts_kernel2_color, l_tmpl = color_tmpl 8 16 5 32 1 False False,
      l_blocks = blocks, l_threads = (16, 8), l_args = a\<rparr>"

section \<open>Properties of the host routine\<close>

lemma isqrt_bounds: "isqrt n * isqrt n \<le> n \<and> n < (isqrt n + 1) * (isqrt n + 1)"
  by (induction n) (auto simp: Let_def)

lemma isqrt_square [simp]: "isqrt (k * k) = k"
proof -
  let ?r = "isqrt (k * k)"
  have a: "?r * ?r \<le> k * k" and b: "k * k < (?r + 1) * (?r + 1)"
    using isqrt_bounds [of "k * k"] by auto
  have "?r \<le> k" using a by (metis linorder_not_less mult_strict_mono' not_less zero_le)
  moreover have "k < ?r + 1" using b
    by (metis linorder_not_less mult_le_mono)
  ultimately show ?thesis by simp
qed

lemma sdiv_nonneg [simp]: "0 \<le> a \<Longrightarrow> 0 \<le> b \<Longrightarrow> (a::int) sdiv b = a div b"
  by (cases "b = 0"; cases "a = 0") (simp_all add: signed_divide_int_def)

lemma smod_nonneg [simp]: "0 \<le> a \<Longrightarrow> 0 \<le> b \<Longrightarrow> (a::int) smod b = a mod b"
  by (cases "b = 0"; cases "a = 0") (simp_all add: signed_modulo_int_def)

lemma select_kernel_Some:
  "3 < nfc \<or> nfc = 1 \<or> nfc = 2 \<or> nfc = 3 \<Longrightarrow> \<exists>k. select_kernel nfc nfpg nf cb dns = Some k"
  by (auto simp add: select_kernel_def)

lemma geometry_block:
  "fst (snd (launch_geometry a b c d e f g)) * fst (launch_geometry a b c d e f g) = 128"
  by (simp add: launch_geometry_def Let_def)

lemma launch_Inr_checks:
  assumes "convWeightActs_launch I H T nmx fs ps ms nic ng sT sO mS0 = Inr r"
  shows "convWeightActs_checks I H T nmx fs ps ms nic ng sT sO mS0"
  using assms unfolding convWeightActs_launch_def convWeightActs_checks_def c_assert_def Let_def
  by (simp split: if_splits prod.splits option.splits; blast)

lemma checks_launch_Some:
  assumes "convWeightActs_checks I H T nmx fs ps ms nic ng sT sO mS0"
  shows "\<exists>T' L. convWeightActs_launch I H T nmx fs ps ms nic ng sT sO mS0 = Inr (T', Some L)"
proof -
  let ?nfc = "nic sdiv ng"
  have c: "3 < ?nfc \<or> ?nfc = 1 \<or> ?nfc = 2 \<or> ?nfc = 3"
    using assms unfolding convWeightActs_checks_def Let_def by auto
  have nk: "\<And>a b cb dns. select_kernel ?nfc a b cb dns \<noteq> None"
    using select_kernel_Some [OF c] by fastforce
  obtain bx by' bl where g: "launch_geometry ?nfc ((int (getNumRows H) sdiv (nmx * nmx)) sdiv ng)
      (int (getNumRows H) sdiv (nmx * nmx)) nic (nmx * nmx)
      (if mS0 = 0 then nmx * nmx else mS0) (fs * fs) = (bx, by', bl)"
    using prod_cases3 by blast
  have b: "by' * bx = 128"
    using geometry_block [of ?nfc "(int (getNumRows H) sdiv (nmx * nmx)) sdiv ng"
      "int (getNumRows H) sdiv (nmx * nmx)" nic "nmx * nmx"
      "if mS0 = 0 then nmx * nmx else mS0" "fs * fs"] unfolding g by simp
  have b': "(by' * bx) smod 32 = 0" unfolding b by (simp add: signed_modulo_int_def)
  show ?thesis
    using assms unfolding convWeightActs_launch_def convWeightActs_checks_def c_assert_def Let_def g
    by (cases "sT = 0 \<and> sO = 1"; cases "mS0 = 0") (simp_all add: b' nk split: option.splits)
qed


lemma sq36: "(36::nat) = 6 * 6"
  by simp

lemmas host_eval = convWeightActs_launch_def tensor_def c_assert_def DIVUP_def Let_def
  signed_divide_int_def signed_modulo_int_def resize_def launch_geometry_def select_kernel_def

text \<open>
  C7. The claim: a call whose geometry violates the full-coverage inequality
  \<open>paddingStart + (numModulesX - 1) * moduleStride + filterSize \<ge> imgSize\<close> aborts before a
  kernel is launched. The assertion of line 612 is written with \<open>numModules\<close> (the square of
  \<open>numModulesX\<close>) in the place of \<open>numModulesX\<close>. For a 6 by 6 image of one colour, 32
  images, 16 filters, \<open>numModulesX = 2\<close>, \<open>filterSize = 3\<close>, \<open>paddingStart = 0\<close> and
  \<open>moduleStride = 1\<close> the inequality fails (4 < 6: the filters visit the columns and rows
  0 to 3 only), and the routine launches \<^verbatim>\<open>weight_acts_kernel2_color\<close>.
\<close>

theorem convWeightActs_partial_coverage_launches:
  "(0 + (2 - 1) * 1 + 3 < (6::int)) \<and>
   map_sum id (map_option l_kernel \<circ> snd)
     (convWeightActs_launch (tensor 36 32) (tensor 64 32) (tensor 0 0) 2 3 0 1 1 1 0 1 0)
   = Inr (Some weight_acts_kernel2_color)"
  by (simp add: host_eval color_tmpl_def del: isqrt.simps) (simp only: sq36 isqrt_square, simp)




text \<open>
  C9: \<^verbatim>\<open>convWeightActs\<close> stops before the launch unless the number of filters (as computed
  at line 595) is a multiple of \<open>16 * numGroups\<close> and the colour count is accepted: with one
  group \<open>numImgColors\<close> is 1, 2, 3 or a multiple of 4, with more than one group
  \<open>numImgColors / numGroups\<close> is a multiple of 4.
\<close>

theorem convWeightActs_rejects_unsupported_counts:
  assumes "\<not> (host_numFilters H nmx smod (16 * ng) = 0
             \<and> (ng = 1 \<longrightarrow> nic \<in> {1, 2, 3} \<or> nic smod 4 = 0)
             \<and> (ng > 1 \<longrightarrow> (nic sdiv ng) smod 4 = 0))"
  shows "\<exists>e. convWeightActs_launch I H T nmx fs ps ms nic ng sT sO mS0 = Inl e"
proof (cases "convWeightActs_launch I H T nmx fs ps ms nic ng sT sO mS0")
  case (Inl e)
  then show ?thesis by blast
next
  case (Inr r)
  from launch_Inr_checks [OF Inr] assms show ?thesis
    unfolding convWeightActs_checks_def host_numFilters_def Let_def
    by auto
qed

theorem convWeightActs_rejects_unsupported_counts_witness:
  "\<not> (host_numFilters (tensor 128 32) 4 smod (16 * 1) = 0
             \<and> ((1::int) = 1 \<longrightarrow> (3::int) \<in> {1, 2, 3} \<or> (3::int) smod 4 = 0)
             \<and> ((1::int) > 1 \<longrightarrow> ((3::int) sdiv 1) smod 4 = 0))
   \<and> (\<exists>e. convWeightActs_launch (tensor 108 32) (tensor 128 32) (tensor 0 0) 4 3 0 1 3 1 0 1 0
          = Inl e)"
  using convWeightActs_rejects_unsupported_counts
          [of "tensor 128 32" 4 1 3 "tensor 108 32" "tensor 0 0" 3 0 1 0 1 0]
  by (simp add: host_numFilters_def tensor_def signed_divide_int_def signed_modulo_int_def)

section \<open>Properties of the kernels\<close>

lemma writes_id: "writes V {} (\<lambda>sh. sh)"
  by (simp add: writes_def)

lemma writes_upd: "writes V {x} (\<lambda>sh. sh(x := V x))"
  by (simp add: writes_def)

lemma writes_fold:
  "(\<And>a. a \<in> set as \<Longrightarrow> writes V (W a) (f a)) \<Longrightarrow> writes V (\<Union>a\<in>set as. W a) (fold f as)"
proof (induction as)
  case Nil
  then show ?case by (simp add: writes_def)
next
  case (Cons a as)
  have 1: "writes V (W a) (f a)" using Cons.prems by simp
  have 2: "writes V (\<Union>a\<in>set as. W a) (fold f as)" using Cons by simp
  show ?case unfolding writes_def
  proof (intro allI)
    fix sh x
    have "fold f (a # as) sh x = fold f as (f a sh) x" by simp
    also have "\<dots> = (if x \<in> (\<Union>a\<in>set as. W a) then V x else f a sh x)"
      using 2 by (simp add: writes_def)
    also have "f a sh x = (if x \<in> W a then V x else sh x)"
      using 1 by (simp add: writes_def)
    finally show "fold f (a # as) sh x = (if x \<in> (\<Union>a\<in>set (a # as). W a) then V x else sh x)"
      by simp
  qed
qed

lemma writes_eq: "writes V W f \<Longrightarrow> W = W' \<Longrightarrow> writes V W' f"
  by simp

lemma writesD: "writes V W f \<Longrightarrow> x \<in> W \<Longrightarrow> f sh x = V x"
  by (simp add: writes_def)

lemma writesD': "writes V W f \<Longrightarrow> x \<notin> W \<Longrightarrow> f sh x = sh x"
  by (simp add: writes_def)

lemma set_dim3_ids: "set (dim3_ids (bx, by)) = {(x, y). x < bx \<and> y < by}"
  by (auto simp: dim3_ids_def)

lemma set_for_range: "0 < step \<Longrightarrow> set (for_range n step) = {y. y < n \<and> step dvd y}"
proof -
  assume s: "0 < step"
  have "\<And>k. (k < (n + step - 1) div step) = (k * step < n)"
  proof -
    fix k
    show "(k < (n + step - 1) div step) = (k * step < n)"
    proof
      assume "k < (n + step - 1) div step"
      then have "Suc k \<le> (n + step - 1) div step" by simp
      then have "Suc k * step \<le> n + step - 1" using s by (simp add: less_eq_div_iff_mult_less_eq)
      then show "k * step < n" using s by (cases step) auto
    next
      assume "k * step < n"
      then have "Suc k * step \<le> n + step - 1" using s by (cases step) auto
      then have "Suc k \<le> (n + step - 1) div step" using s by (simp add: less_eq_div_iff_mult_less_eq)
      then show "k < (n + step - 1) div step" by simp
    qed
  qed
  then have "set (for_range n step) = {k * step | k. k * step < n}"
    unfolding for_range_def by auto
  also have "\<dots> = {y. y < n \<and> step dvd y}"
    by (auto simp: dvd_def mult.commute)
  finally show ?thesis .
qed

lemma thread_facts:
  assumes "wf_block T" "t \<in> set (dim3_ids (B_X T, B_Y T))"
  shows "loadX T t < preloadCases T" "loadY T t < loadStep T"
proof -
  have P: "0 < preloadCases T" and e: "B_X T * B_Y T = loadStep T * preloadCases T"
    using assms(1) by (auto simp: wf_block_def)
  obtain x y where t: "t = (x, y)" "x < B_X T" "y < B_Y T"
    using assms(2) by (auto simp: set_dim3_ids)
  have "B_X T * y + x < B_X T * y + B_X T" using t by simp
  also have "\<dots> = B_X T * Suc y" by simp
  also have "\<dots> \<le> B_X T * B_Y T" using t by (intro mult_le_mono2) simp
  finally have lt: "tidx T t < loadStep T * preloadCases T" using e t by (simp add: tidx_def)
  show "loadX T t < preloadCases T" using P by (simp add: loadX_def)
  show "loadY T t < loadStep T" using lt P by (simp add: loadY_def less_mult_imp_div_less)
qed

lemma thread_exists:
  assumes "wf_block T" "ly < loadStep T" "lx < preloadCases T"
  shows "\<exists>t \<in> set (dim3_ids (B_X T, B_Y T)). loadY T t = ly \<and> loadX T t = lx"
proof -
  have P: "0 < preloadCases T" and X: "0 < B_X T" and e: "B_X T * B_Y T = loadStep T * preloadCases T"
    using assms(1) by (auto simp: wf_block_def)
  let ?n = "ly * preloadCases T + lx"
  have "?n < ly * preloadCases T + preloadCases T" using assms(3) by simp
  also have "\<dots> = Suc ly * preloadCases T" by simp
  also have "\<dots> \<le> loadStep T * preloadCases T" using assms(2) by (intro mult_le_mono1) simp
  finally have lt: "?n < B_X T * B_Y T" using e by simp
  let ?t = "(?n mod B_X T, ?n div B_X T)"
  have "?t \<in> set (dim3_ids (B_X T, B_Y T))"
    using X lt by (simp add: set_dim3_ids less_mult_imp_div_less mult.commute)
  moreover have "tidx T ?t = ?n" by (simp add: tidx_def)
  then have "loadY T ?t = ly \<and> loadX T ?t = lx"
    using assms(3) by (simp add: loadY_def loadX_def)
  ultimately show ?thesis by blast
qed

lemma range_add_less:
  assumes "0 < step" "step dvd rows" "y < rows" "step dvd y" "l < step"
  shows "l + y < (rows::nat)"
proof -
  obtain k where k: "y = step * k" using assms(4) by (auto simp: dvd_def)
  obtain K where K: "rows = step * K" using assms(2) by (auto simp: dvd_def)
  have "k < K" using assms(1,3) k K by simp
  then have "Suc k \<le> K" by simp
  then have "step * Suc k \<le> step * K" by (rule mult_le_mono2)
  then show ?thesis using k K assms(5) by simp
qed

lemma cell_div: "i < n \<Longrightarrow> (r * n + i) div n = (r::nat)"
  by simp

lemma cell_mod: "i < n \<Longrightarrow> (r * n + i) mod n = (i::nat)"
  by simp

lemma load_hidActs_writes:
  assumes wf: "wf_block T" and t: "t \<in> set (dim3_ids (B_X T, B_Y T))"
    and rows: "loadStep T dvd rows" and m: "mi \<le> m"
  shows "writes (hid_cell_val T a hidActs bfi m ci)
           (if loadY T t < rows \<and> (\<not> checkCaseBounds T \<or> ci + loadX T t < numImages a)
            then {(loadY T t + y) * (preloadCases T + 1) + loadX T t | y. y < rows \<and> loadStep T dvd y}
            else {})
           (load_hidActs T a hidActs rows (hidActsOff T a bfi mi t m) t ci)"
proof (cases "loadY T t < rows \<and> (\<not> checkCaseBounds T \<or> ci + loadX T t < numImages a)")
  case False
  then show ?thesis by (auto simp: load_hidActs_def Let_def writes_def)
next
  case True
  let ?P = "preloadCases T"
  have lx: "loadX T t < ?P" and ly: "loadY T t < loadStep T"
    using thread_facts [OF wf t] by auto
  have s: "0 < loadStep T" using wf by (simp add: wf_block_def)
  have rm: "rows mod loadStep T = 0" using rows by auto
  let ?f = "\<lambda>y sh. sh(loadY T t * (?P + 1) + loadX T t + y * (?P + 1) :=
                hidActs (hidActsOff T a bfi mi t m + (ci + y * numImages a * numModules a)))"
  have step: "\<And>y. y \<in> set (for_range rows (loadStep T)) \<Longrightarrow>
     writes (hid_cell_val T a hidActs bfi m ci) {(loadY T t + y) * (?P + 1) + loadX T t} (?f y)"
  proof -
    fix y assume "y \<in> set (for_range rows (loadStep T))"
    have cell: "loadY T t * (?P + 1) + loadX T t + y * (?P + 1) = (loadY T t + y) * (?P + 1) + loadX T t"
      by (simp add: algebra_simps)
    have d: "((loadY T t + y) * (?P + 1) + loadX T t) div (?P + 1) = loadY T t + y"
      by (rule cell_div) (use lx in simp)
    have r: "((loadY T t + y) * (?P + 1) + loadX T t) mod (?P + 1) = loadX T t"
      by (rule cell_mod) (use lx in simp)
    have "mi * numImages a + (m - mi) * numImages a = (mi + (m - mi)) * numImages a"
      by (simp only: add_mult_distrib)
    then have "mi * numImages a + (m - mi) * numImages a = m * numImages a"
      using m by simp
    then have v: "hid_cell_val T a hidActs bfi m ci ((loadY T t + y) * (?P + 1) + loadX T t)
        = hidActs (hidActsOff T a bfi mi t m + (ci + y * numImages a * numModules a))"
      unfolding hid_cell_val_def spec_hidAct_def hidActsOff_def d r
      by (intro arg_cong [where f = hidActs]) (simp add: algebra_simps)
    show "writes (hid_cell_val T a hidActs bfi m ci) {(loadY T t + y) * (?P + 1) + loadX T t} (?f y)"
      unfolding cell v [symmetric] by (rule writes_upd)
  qed
  have "writes (hid_cell_val T a hidActs bfi m ci)
          (\<Union>y\<in>set (for_range rows (loadStep T)). {(loadY T t + y) * (?P + 1) + loadX T t})
          (fold ?f (for_range rows (loadStep T)))"
    by (rule writes_fold) (rule step)
  moreover have "(\<Union>y\<in>set (for_range rows (loadStep T)). {(loadY T t + y) * (?P + 1) + loadX T t})
      = {(loadY T t + y) * (?P + 1) + loadX T t | y. y < rows \<and> loadStep T dvd y}"
    using s by (auto simp: set_for_range)
  moreover have "load_hidActs T a hidActs rows (hidActsOff T a bfi mi t m) t ci = fold ?f (for_range rows (loadStep T))"
    using True rm by (auto simp: load_hidActs_def Let_def fun_eq_iff)
  ultimately show ?thesis using True by simp
qed

lemma load_hidActs_block:
  assumes wf: "wf_block T" and rows: "loadStep T dvd rows" and m: "mi \<le> m"
    and r: "r < rows" and i: "i < preloadCases T"
    and ok: "\<not> checkCaseBounds T \<or> ci + i < numImages a"
  shows "fold (\<lambda>t. load_hidActs T a hidActs rows (hidActsOff T a bfi mi t m) t ci)
           (dim3_ids (B_X T, B_Y T)) sh (r * (preloadCases T + 1) + i)
         = spec_hidAct a hidActs (bfi + r) m (ci + i)"
proof -
  let ?P = "preloadCases T" and ?s = "loadStep T"
  let ?ts = "dim3_ids (B_X T, B_Y T)"
  let ?W = "\<lambda>t. if loadY T t < rows \<and> (\<not> checkCaseBounds T \<or> ci + loadX T t < numImages a)
            then {(loadY T t + y) * (?P + 1) + loadX T t | y. y < rows \<and> ?s dvd y}
            else {}"
  have s: "0 < ?s" using wf by (simp add: wf_block_def)
  have w: "writes (hid_cell_val T a hidActs bfi m ci) (\<Union>t\<in>set ?ts. ?W t)
            (fold (\<lambda>t. load_hidActs T a hidActs rows (hidActsOff T a bfi mi t m) t ci) ?ts)"
    by (rule writes_fold) (rule load_hidActs_writes [OF wf _ rows m])
  obtain t where t: "t \<in> set ?ts" "loadY T t = r mod ?s" "loadX T t = i"
    using thread_exists [OF wf _ i, of "r mod ?s"] s by auto
  have ry: "r mod ?s + (r - r mod ?s) = r" by (simp add: mod_less_eq_dividend)
  have y: "r - r mod ?s < rows \<and> ?s dvd (r - r mod ?s)"
    using r by (simp add: dvd_minus_mod less_imp_diff_less)
  have lr: "loadY T t < rows" using t(2) r le_less_trans [OF mod_less_eq_dividend [of r ?s]] by simp
  have "r * (?P + 1) + i \<in> {(loadY T t + y) * (?P + 1) + loadX T t | y. y < rows \<and> ?s dvd y}"
    using y ry t(2,3) by (intro CollectI exI [of _ "r - r mod ?s"]) simp
  then have "r * (?P + 1) + i \<in> ?W t"
    using lr ok t(3) by simp
  then have "r * (?P + 1) + i \<in> (\<Union>t\<in>set ?ts. ?W t)" using t(1) by blast
  from writesD [OF w this]
  have "fold (\<lambda>t. load_hidActs T a hidActs rows (hidActsOff T a bfi mi t m) t ci) ?ts sh (r * (?P + 1) + i)
        = hid_cell_val T a hidActs bfi m ci (r * (?P + 1) + i)" .
  also have "\<dots> = spec_hidAct a hidActs (bfi + r) m (ci + i)"
  proof -
    have d: "(r * (?P + 1) + i) div (?P + 1) = r" by (rule cell_div) (use i in simp)
    have md: "(r * (?P + 1) + i) mod (?P + 1) = i" by (rule cell_mod) (use i in simp)
    show ?thesis unfolding hid_cell_val_def d md ..
  qed
  finally show ?thesis .
qed

lemma fold_cong_set: "(\<And>x. x \<in> set xs \<Longrightarrow> f x = g x) \<Longrightarrow> fold f xs = fold g xs"
  by (induction xs) auto

lemma load_images_writes:
  assumes wf: "wf_block T" and t: "t \<in> set (dim3_ids (B_X T, B_Y T))"
    and rows: "loadStep T dvd rows"
  shows "writes (img_cell_val T a images rows bPO pxc off m ci)
           (if loadY T t < rows
            then (\<Union>y\<in>{y. y < rows \<and> loadStep T dvd y}. \<Union>c\<in>{0..<ncolors}.
                    {(loadY T t + y + c * rows) * preloadCases T + loadX T t})
            else {})
           (load_images T a images rows ncolors bPO pxc off t m ci)"
proof (cases "loadY T t < rows")
  case False
  then show ?thesis by (auto simp: load_images_def Let_def writes_def)
next
  case True
  let ?P = "preloadCases T" and ?s = "loadStep T"
  let ?V = "img_cell_val T a images rows bPO pxc off m ci"
  let ?cell = "\<lambda>y c. (loadY T t + y + c * rows) * ?P + loadX T t"
  have lx: "loadX T t < ?P" and ly: "loadY T t < ?s"
    using thread_facts [OF wf t] by auto
  have s: "0 < ?s" using wf by (simp add: wf_block_def)
  have rm: "rows mod ?s = 0" using rows by auto
  have val: "?V (?cell y c) = img_load_val T a images bPO pxc off m ci c (loadY T t + y) (loadX T t)"
    if "y \<in> set (for_range rows ?s)" for y c
  proof -
    have "y < rows" "?s dvd y" using that s by (auto simp: set_for_range)
    then have q: "loadY T t + y < rows" using range_add_less [OF s rows _ _ ly] by simp
    have d: "?cell y c div ?P = loadY T t + y + c * rows" by (rule cell_div [OF lx])
    have md: "?cell y c mod ?P = loadX T t" by (rule cell_mod [OF lx])
    have d2: "(loadY T t + y + c * rows) div rows = c" using q by simp
    have m2: "(loadY T t + y + c * rows) mod rows = loadY T t + y" using q by simp
    show ?thesis unfolding img_cell_val_def d md d2 m2 ..
  qed
  let ?g = "\<lambda>y. fold (\<lambda>c sh. sh(?cell y c := ?V (?cell y c))) [0..<ncolors]"
  have eq: "load_images T a images rows ncolors bPO pxc off t m ci = fold ?g (for_range rows ?s)"
  proof -
    have "load_images T a images rows ncolors bPO pxc off t m ci =
       fold (\<lambda>y sh.
           (let pxIdx = loadY T t + y in
            if pxIdx + bPO < filterPixels a
               \<and> (\<not> checkCaseBounds T \<or> ci + loadX T t < numImages a) then
              (let pxY = imgLoadModPosY a m + int (fst (pxc pxIdx));
                   pxX = imgLoadModPosX a m + int (snd (pxc pxIdx)) in
               if pxY \<ge> 0 \<and> pxY < int (imgSize a) \<and> pxX \<ge> 0 \<and> pxX < int (imgSize a) then
                 (let pixIdx = nat ((pxY * int (imgSize a) + pxX) * int (imgStride a)) in
                  fold (\<lambda>c sh. sh(loadY T t * ?P + loadX T t + (y + c * rows) * ?P :=
                          images (off + loadX T t
                                  + (ci + c * imgPixels a * imgStride a + pixIdx))))
                    [0..<ncolors] sh)
               else
                 fold (\<lambda>c sh. sh(loadY T t * ?P + loadX T t + (y + c * rows) * ?P := 0)) [0..<ncolors] sh)
            else
              fold (\<lambda>c sh. sh(loadY T t * ?P + loadX T t + (y + c * rows) * ?P := 0)) [0..<ncolors] sh))
         (for_range rows ?s)"
      using True rm by (simp add: load_images_def Let_def fun_eq_iff)
    also have "\<dots> = fold ?g (for_range rows ?s)"
    proof (rule fold_cong_set)
      fix y assume y: "y \<in> set (for_range rows ?s)"
      have c: "loadY T t * ?P + loadX T t + (y + c * rows) * ?P = ?cell y c" for c
        by (simp add: algebra_simps)
      show "(\<lambda>sh.
           (let pxIdx = loadY T t + y in
            if pxIdx + bPO < filterPixels a
               \<and> (\<not> checkCaseBounds T \<or> ci + loadX T t < numImages a) then
              (let pxY = imgLoadModPosY a m + int (fst (pxc pxIdx));
                   pxX = imgLoadModPosX a m + int (snd (pxc pxIdx)) in
               if pxY \<ge> 0 \<and> pxY < int (imgSize a) \<and> pxX \<ge> 0 \<and> pxX < int (imgSize a) then
                 (let pixIdx = nat ((pxY * int (imgSize a) + pxX) * int (imgStride a)) in
                  fold (\<lambda>c sh. sh(loadY T t * ?P + loadX T t + (y + c * rows) * ?P :=
                          images (off + loadX T t
                                  + (ci + c * imgPixels a * imgStride a + pixIdx))))
                    [0..<ncolors] sh)
               else
                 fold (\<lambda>c sh. sh(loadY T t * ?P + loadX T t + (y + c * rows) * ?P := 0)) [0..<ncolors] sh)
            else
              fold (\<lambda>c sh. sh(loadY T t * ?P + loadX T t + (y + c * rows) * ?P := 0)) [0..<ncolors] sh))
         = ?g y"
        unfolding c val [OF y] by (auto simp: img_load_val_def Let_def fun_eq_iff)
    qed
    finally show ?thesis .
  qed
  have "writes ?V (\<Union>y\<in>set (for_range rows ?s). \<Union>c\<in>set [0..<ncolors]. {?cell y c}) (fold ?g (for_range rows ?s))"
    by (intro writes_fold writes_upd)
  moreover have "set (for_range rows ?s) = {y. y < rows \<and> ?s dvd y}"
    using s by (rule set_for_range)
  ultimately show ?thesis using True eq by simp
qed

lemma load_images_block:
  assumes wf: "wf_block T" and rows: "loadStep T dvd rows"
    and q: "q < rows" and c: "c < ncolors" and i: "i < preloadCases T"
  shows "fold (\<lambda>t. load_images T a images rows ncolors bPO pxc off t m ci)
           (dim3_ids (B_X T, B_Y T)) sh ((q + c * rows) * preloadCases T + i)
         = img_load_val T a images bPO pxc off m ci c q i"
proof -
  let ?P = "preloadCases T" and ?s = "loadStep T"
  let ?ts = "dim3_ids (B_X T, B_Y T)"
  let ?W = "\<lambda>t. if loadY T t < rows
            then (\<Union>y\<in>{y. y < rows \<and> ?s dvd y}. \<Union>c\<in>{0..<ncolors}.
                    {(loadY T t + y + c * rows) * ?P + loadX T t})
            else {}"
  have s: "0 < ?s" using wf by (simp add: wf_block_def)
  have w: "writes (img_cell_val T a images rows bPO pxc off m ci) (\<Union>t\<in>set ?ts. ?W t)
            (fold (\<lambda>t. load_images T a images rows ncolors bPO pxc off t m ci) ?ts)"
    by (rule writes_fold) (rule load_images_writes [OF wf _ rows])
  obtain t where t: "t \<in> set ?ts" "loadY T t = q mod ?s" "loadX T t = i"
    using thread_exists [OF wf _ i, of "q mod ?s"] s by auto
  have ry: "q mod ?s + (q - q mod ?s) = q" by (simp add: mod_less_eq_dividend)
  have y: "q - q mod ?s \<in> {y. y < rows \<and> ?s dvd y}"
    using q by (simp add: dvd_minus_mod less_imp_diff_less)
  have lr: "loadY T t < rows" using t(2) q le_less_trans [OF mod_less_eq_dividend [of q ?s]] by simp
  have c': "c \<in> {0..<ncolors}" using c by simp
  have "(q + c * rows) * ?P + i \<in> {(loadY T t + (q - q mod ?s) + c * rows) * ?P + loadX T t}"
    using ry t(2,3) by simp
  then have "(q + c * rows) * ?P + i \<in> (\<Union>y\<in>{y. y < rows \<and> ?s dvd y}. \<Union>c\<in>{0..<ncolors}.
                    {(loadY T t + y + c * rows) * ?P + loadX T t})"
    using y c' by blast
  then have "(q + c * rows) * ?P + i \<in> ?W t"
    using lr by simp
  then have "(q + c * rows) * ?P + i \<in> (\<Union>t\<in>set ?ts. ?W t)" using t(1) by blast
  from writesD [OF w this]
  have "fold (\<lambda>t. load_images T a images rows ncolors bPO pxc off t m ci) ?ts sh ((q + c * rows) * ?P + i)
        = img_cell_val T a images rows bPO pxc off m ci ((q + c * rows) * ?P + i)" .
  also have "\<dots> = img_load_val T a images bPO pxc off m ci c q i"
  proof -
    have d: "((q + c * rows) * ?P + i) div ?P = q + c * rows" by (rule cell_div [OF i])
    have md: "((q + c * rows) * ?P + i) mod ?P = i" by (rule cell_mod [OF i])
    have d2: "(q + c * rows) div rows = c" using q by simp
    have m2: "(q + c * rows) mod rows = q" using q by simp
    show ?thesis unfolding img_cell_val_def d md d2 m2 ..
  qed
  finally show ?thesis .
qed

lemma adds_upd: "adds (\<lambda>k'. if k' = k then v else 0) (\<lambda>pr. pr(k := pr k + v))"
  by (simp add: adds_def)

lemma adds_fold:
  "(\<And>a. a \<in> set as \<Longrightarrow> adds (D a) (f a)) \<Longrightarrow> adds (\<lambda>k. \<Sum>a\<leftarrow>as. D a k) (fold f as)"
proof (induction as)
  case Nil
  then show ?case by (simp add: adds_def)
next
  case (Cons a as)
  have 1: "adds (D a) (f a)" using Cons.prems by simp
  have 2: "adds (\<lambda>k. \<Sum>a\<leftarrow>as. D a k) (fold f as)" using Cons by simp
  show ?case unfolding adds_def
  proof (intro allI)
    fix pr k
    have "fold f (a # as) pr k = fold f as (f a pr) k" by simp
    also have "\<dots> = f a pr k + (\<Sum>a\<leftarrow>as. D a k)" using 2 by (simp add: adds_def)
    also have "f a pr k = pr k + D a k" using 1 by (simp add: adds_def)
    finally show "fold f (a # as) pr k = pr k + (\<Sum>a\<leftarrow>a # as. D a k)" by simp
  qed
qed

lemma addsD: "adds D f \<Longrightarrow> f pr k = pr k + D k"
  by (simp add: adds_def)

lemma sum_list_upt: "(\<Sum>i\<leftarrow>[0..<n]. f i) = (\<Sum>i<n. f i)"
  by (simp add: interv_sum_list_conv_sum_set_nat atLeast0LessThan)

lemma sum_pick: "j0 < (n::nat) \<Longrightarrow> (\<Sum>j<n. if j0 = j then f j else (0::real)) = f j0"
  using sum.delta' [of "{..<n}" j0 f] by simp

lemma sum_outer_inner_pick:
  assumes "c0 < (nc::nat)" "j0 < (nj::nat)"
  shows "(\<Sum>c<nc. \<Sum>i<P. \<Sum>j<nj. if (c0, j0) = (c, j) then X c i j else (0::real)) = (\<Sum>i<(P::nat). X c0 i j0)"
proof -
  have "(\<Sum>c<nc. \<Sum>i<P. \<Sum>j<nj. if (c0, j0) = (c, j) then X c i j else 0)
      = (\<Sum>c<nc. if c0 = c then (\<Sum>i<P. \<Sum>j<nj. if j0 = j then X c i j else 0) else 0)"
    by (intro sum.cong refl) auto
  also have "\<dots> = (\<Sum>i<P. \<Sum>j<nj. if j0 = j then X c0 i j else 0)"
    using assms(1) by (rule sum_pick)
  also have "\<dots> = (\<Sum>i<P. X c0 i j0)"
    using assms(2) by (simp add: sum_pick)
  finally show ?thesis .
qed

lemma sum_inner_outer_pick:
  assumes "c0 < (nc::nat)" "j0 < (nj::nat)"
  shows "(\<Sum>j<nj. \<Sum>i<P. \<Sum>c<nc. if (c0, j0) = (c, j) then X c i j else (0::real)) = (\<Sum>i<(P::nat). X c0 i j0)"
proof -
  have "(\<Sum>j<nj. \<Sum>i<P. \<Sum>c<nc. if (c0, j0) = (c, j) then X c i j else 0)
      = (\<Sum>j<nj. if j0 = j then (\<Sum>i<P. \<Sum>c<nc. if c0 = c then X c i j else 0) else 0)"
    by (intro sum.cong refl) auto
  also have "\<dots> = (\<Sum>i<P. \<Sum>c<nc. if c0 = c then X c i j0 else 0)"
    using assms(2) by (rule sum_pick)
  also have "\<dots> = (\<Sum>i<P. X c0 i j0)"
    using assms(1) by (simp add: sum_pick)
  finally show ?thesis .
qed

lemma mf_accumulate_regs:
  assumes "c < colorsPerThread T" "f < filtersPerThread T"
  shows "mf_accumulate T t shI shH prd (c, f)
         = prd (c, f) + (\<Sum>i<preloadCases T.
              shI ((snd t + c * B_Y T) * preloadCases T + i)
              * shH ((fst t + f * B_X T) * (preloadCases T + 1) + i))"
proof -
  let ?X = "\<lambda>c i f. shI ((snd t + c * B_Y T) * preloadCases T + i)
              * shH ((fst t + f * B_X T) * (preloadCases T + 1) + i)"
  have "adds (\<lambda>k. \<Sum>c\<leftarrow>[0..<colorsPerThread T]. \<Sum>i\<leftarrow>[0..<preloadCases T]. \<Sum>f\<leftarrow>[0..<filtersPerThread T].
                 if k = (c, f) then ?X c i f else 0)
          (fold (\<lambda>c. fold (\<lambda>i. fold (\<lambda>f pr. pr((c, f) := pr (c, f) + ?X c i f))
             [0..<filtersPerThread T]) [0..<preloadCases T]) [0..<colorsPerThread T])"
    by (intro adds_fold adds_upd)
  from addsD [OF this, of prd "(c, f)"]
  show ?thesis
    unfolding mf_accumulate_def sum_list_upt
    using sum_outer_inner_pick [OF assms, where P = "preloadCases T" and X = ?X] by simp
qed

lemma mc_accumulate_regs:
  assumes "c < colorsPerThread T" "p < pixelsPerThread T"
  shows "mc_accumulate T t shI shH prd (c, p)
         = prd (c, p) + (\<Sum>i<preloadCases T.
              shI ((snd t + p * B_Y T + c * pixelsPerThread T * B_Y T) * preloadCases T + i)
              * shH (fst t * (preloadCases T + 1) + i))"
proof -
  let ?X = "\<lambda>c i p. shI ((snd t + p * B_Y T + c * pixelsPerThread T * B_Y T) * preloadCases T + i)
              * shH (fst t * (preloadCases T + 1) + i)"
  have "adds (\<lambda>k. \<Sum>c\<leftarrow>[0..<colorsPerThread T]. \<Sum>i\<leftarrow>[0..<preloadCases T]. \<Sum>p\<leftarrow>[0..<pixelsPerThread T].
                 if k = (c, p) then ?X c i p else 0)
          (fold (\<lambda>c. fold (\<lambda>i. fold (\<lambda>p pr. pr((c, p) := pr (c, p) + ?X c i p))
             [0..<pixelsPerThread T]) [0..<preloadCases T]) [0..<colorsPerThread T])"
    by (intro adds_fold adds_upd)
  from addsD [OF this, of prd "(c, p)"]
  show ?thesis
    unfolding mc_accumulate_def sum_list_upt
    using sum_outer_inner_pick [OF assms, where P = "preloadCases T" and X = ?X] by simp
qed

lemma c_accumulate_regs:
  assumes "c < numColors T" "p < pixelsPerThread T"
  shows "c_accumulate T t shI shH prd (c, p)
         = prd (c, p) + (\<Sum>i<preloadCases T.
              shI ((snd t + p * B_Y T + c * pixelsPerThread T * B_Y T) * preloadCases T + i)
              * shH (fst t * (preloadCases T + 1) + i))"
proof -
  let ?X = "\<lambda>c i p. shI ((snd t + p * B_Y T + c * pixelsPerThread T * B_Y T) * preloadCases T + i)
              * shH (fst t * (preloadCases T + 1) + i)"
  have "adds (\<lambda>k. \<Sum>p\<leftarrow>[0..<pixelsPerThread T]. \<Sum>i\<leftarrow>[0..<preloadCases T]. \<Sum>c\<leftarrow>[0..<numColors T].
                 if k = (c, p) then ?X c i p else 0)
          (fold (\<lambda>p. fold (\<lambda>i. fold (\<lambda>c pr. pr((c, p) := pr (c, p) + ?X c i p))
             [0..<numColors T]) [0..<preloadCases T]) [0..<pixelsPerThread T])"
    by (intro adds_fold adds_upd)
  from addsD [OF this, of prd "(c, p)"]
  show ?thesis
    unfolding c_accumulate_def sum_list_upt
    using sum_inner_outer_pick [OF assms, where P = "preloadCases T" and X = ?X] by simp
qed

lemma img_load_val_gather:
  "img_load_val T a images bPO pxc off m ci c q i =
     (if \<not> checkCaseBounds T \<or> ci + i < numImages a
      then img_gather_val a images bPO pxc off m c q (ci + i) else 0)"
  by (simp add: img_load_val_def img_gather_val_def Let_def add.assoc add.left_commute)

lemma block_step_regs:
  assumes wf: "wf_block T" and rI: "loadStep T dvd rowsI" and rH: "loadStep T dvd rowsH"
    and m: "mi \<le> m"
    and acc: "\<And>shI shH prd. acc t shI shH prd k
         = prd k + (\<Sum>i<preloadCases T. shI ((q + c * rowsI) * preloadCases T + i)
                                          * shH (r * (preloadCases T + 1) + i))"
    and q: "q < rowsI" and c: "c < ncolors" and r: "r < rowsH"
  shows "snd (snd (block_step (dim3_ids (B_X T, B_Y T))
            (\<lambda>t. load_images T a images rowsI ncolors bPO pxc off t m ci)
            (\<lambda>t. load_hidActs T a hidActs rowsH (hidActsOff T a bfi mi t m) t ci) acc st)) t k
         = snd (snd st) t k + (\<Sum>i<preloadCases T.
              if \<not> checkCaseBounds T \<or> ci + i < numImages a
              then img_gather_val a images bPO pxc off m c q (ci + i)
                   * spec_hidAct a hidActs (bfi + r) m (ci + i)
              else 0)"
proof -
  obtain shI shH prd where st: "st = (shI, shH, prd)" by (cases st) auto
  let ?ts = "dim3_ids (B_X T, B_Y T)"
  let ?shI = "fold (\<lambda>t. load_images T a images rowsI ncolors bPO pxc off t m ci) ?ts shI"
  let ?shH = "fold (\<lambda>t. load_hidActs T a hidActs rowsH (hidActsOff T a bfi mi t m) t ci) ?ts shH"
  have "snd (snd (block_step ?ts
            (\<lambda>t. load_images T a images rowsI ncolors bPO pxc off t m ci)
            (\<lambda>t. load_hidActs T a hidActs rowsH (hidActsOff T a bfi mi t m) t ci) acc st)) t k
        = acc t ?shI ?shH (prd t) k"
    by (simp add: block_step_def st Let_def)
  also have "\<dots> = prd t k + (\<Sum>i<preloadCases T. ?shI ((q + c * rowsI) * preloadCases T + i)
                                          * ?shH (r * (preloadCases T + 1) + i))"
    by (rule acc)
  also have "(\<Sum>i<preloadCases T. ?shI ((q + c * rowsI) * preloadCases T + i)
                                          * ?shH (r * (preloadCases T + 1) + i))
      = (\<Sum>i<preloadCases T.
              if \<not> checkCaseBounds T \<or> ci + i < numImages a
              then img_gather_val a images bPO pxc off m c q (ci + i)
                   * spec_hidAct a hidActs (bfi + r) m (ci + i)
              else 0)"
  proof (rule sum.cong [OF refl])
    fix i assume "i \<in> {..<preloadCases T}"
    then have i: "i < preloadCases T" by simp
    have I: "?shI ((q + c * rowsI) * preloadCases T + i)
        = (if \<not> checkCaseBounds T \<or> ci + i < numImages a
           then img_gather_val a images bPO pxc off m c q (ci + i) else 0)"
      unfolding load_images_block [OF wf rI q c i] by (rule img_load_val_gather)
    show "?shI ((q + c * rowsI) * preloadCases T + i) * ?shH (r * (preloadCases T + 1) + i)
        = (if \<not> checkCaseBounds T \<or> ci + i < numImages a
              then img_gather_val a images bPO pxc off m c q (ci + i)
                   * spec_hidAct a hidActs (bfi + r) m (ci + i)
              else 0)"
    proof (cases "\<not> checkCaseBounds T \<or> ci + i < numImages a")
      case True
      show ?thesis unfolding I load_hidActs_block [OF wf rH m r i True] using True by simp
    next
      case False
      then show ?thesis unfolding I by simp
    qed
  qed
  finally show ?thesis by (simp add: st)
qed

lemma tiles_sum:
  assumes P: "0 < P" and ok: "chk \<or> P dvd N"
  shows "(\<Sum>ci\<leftarrow>for_range N P. \<Sum>i<P. if \<not> chk \<or> ci + i < N then h (ci + i) else (0::real))
         = (\<Sum>n<N. h n)"
proof -
  let ?K = "(N + P - 1) div P"
  let ?g = "\<lambda>n. if n < N then h n else 0"
  have KN: "N \<le> ?K * P"
  proof -
    have "N + P - 1 < P + ?K * P"
      using P by (rule dividend_less_div_times)
    then show ?thesis using P by linarith
  qed
  have in_range: "k * P + i < N" if "\<not> chk" "k < ?K" "i < P" for k i
  proof -
    from ok that(1) obtain d where d: "N = P * d" by (auto simp: dvd_def)
    have e: "N + P - 1 = P * d + (P - 1)" using P d by simp
    have "(P * d + (P - 1)) div P = d"
      using P by (intro div_nat_eqI) simp_all
    then have "?K = d" unfolding e .
    then have "k < d" using that(2) by simp
    then have "Suc k \<le> d" by simp
    then have "P * Suc k \<le> P * d" by (rule mult_le_mono2)
    then show ?thesis using that(3) d by (simp add: mult.commute)
  qed
  have "(\<Sum>ci\<leftarrow>for_range N P. \<Sum>i<P. if \<not> chk \<or> ci + i < N then h (ci + i) else 0)
      = (\<Sum>k<?K. \<Sum>i<P. if \<not> chk \<or> k * P + i < N then h (k * P + i) else 0)"
    by (simp add: for_range_def comp_def sum_list_upt)
  also have "\<dots> = (\<Sum>k<?K. \<Sum>i<P. ?g (k * P + i))"
    using in_range by (intro sum.cong refl) auto
  also have "\<dots> = (\<Sum>k<?K. sum ?g {k * P ..< k * P + P})"
  proof (rule sum.cong [OF refl])
    fix k
    have "sum ?g {k * P ..< k * P + P} = sum ?g {0 + k * P ..< P + k * P}"
      by (simp add: add.commute)
    also have "\<dots> = (\<Sum>i\<in>{0..<P}. ?g (i + k * P))"
      by (rule sum.shift_bounds_nat_ivl)
    also have "\<dots> = (\<Sum>i<P. ?g (k * P + i))"
      unfolding atLeast0LessThan by (intro sum.cong refl) (simp only: add.commute)
    finally show "(\<Sum>i<P. ?g (k * P + i)) = sum ?g {k * P ..< k * P + P}" by simp
  qed
  also have "\<dots> = sum ?g {..<?K * P}" by (rule sum.nat_group)
  also have "\<dots> = sum ?g {..<N}"
    using KN by (intro sum.mono_neutral_right) auto
  also have "\<dots> = (\<Sum>n<N. h n)" by simp
  finally show ?thesis .
qed

lemma tile_loop_regs:
  assumes step: "\<And>ci st. ci \<in> set cs \<Longrightarrow>
       snd (snd (block_step ts (ldI ci) (ldH ci) acc st)) t k = snd (snd st) t k + D ci"
  shows "snd (snd (fold (\<lambda>ci. block_step ts (ldI ci) (ldH ci) acc) cs st)) t k
         = snd (snd st) t k + (\<Sum>ci\<leftarrow>cs. D ci)"
  using step
proof (induction cs arbitrary: st)
  case Nil
  then show ?case by simp
next
  case (Cons ci cs)
  have 1: "snd (snd (block_step ts (ldI ci) (ldH ci) acc st)) t k = snd (snd st) t k + D ci"
    by (rule Cons.prems) simp
  have 2: "snd (snd (fold (\<lambda>ci. block_step ts (ldI ci) (ldH ci) acc) cs
                       (block_step ts (ldI ci) (ldH ci) acc st))) t k
         = snd (snd (block_step ts (ldI ci) (ldH ci) acc st)) t k + (\<Sum>ci\<leftarrow>cs. D ci)"
    by (rule Cons.IH) (simp add: Cons.prems)
  show ?case using 1 2 by simp
qed

lemma block_loop_regs:
  assumes step: "\<And>m ci st. m \<in> set ms \<Longrightarrow> ci \<in> set tiles \<Longrightarrow>
       snd (snd (block_step ts (\<lambda>t. ldI t m ci) (\<lambda>t. ldH t m ci) acc st)) t k
         = snd (snd st) t k + D m ci"
  shows "snd (snd (fold (\<lambda>m. fold (\<lambda>ci. block_step ts (\<lambda>t. ldI t m ci) (\<lambda>t. ldH t m ci) acc) tiles) ms st)) t k
         = snd (snd st) t k + (\<Sum>m\<leftarrow>ms. \<Sum>ci\<leftarrow>tiles. D m ci)"
  using step
proof (induction ms arbitrary: st)
  case Nil
  then show ?case by simp
next
  case (Cons m ms)
  let ?st = "fold (\<lambda>ci. block_step ts (\<lambda>t. ldI t m ci) (\<lambda>t. ldH t m ci) acc) tiles st"
  have 1: "snd (snd ?st) t k = snd (snd st) t k + (\<Sum>ci\<leftarrow>tiles. D m ci)"
    by (rule tile_loop_regs) (simp add: Cons.prems)
  have 2: "snd (snd (fold (\<lambda>m. fold (\<lambda>ci. block_step ts (\<lambda>t. ldI t m ci) (\<lambda>t. ldH t m ci) acc) tiles) ms ?st)) t k
         = snd (snd ?st) t k + (\<Sum>m\<leftarrow>ms. \<Sum>ci\<leftarrow>tiles. D m ci)"
    by (rule Cons.IH) (simp add: Cons.prems)
  show ?case using 1 2 by simp
qed

lemma block_regs:
  assumes wf: "wf_block T" and rI: "loadStep T dvd rowsI" and rH: "loadStep T dvd rowsH"
    and acc: "\<And>shI shH prd. acc t shI shH prd k
         = prd k + (\<Sum>i<preloadCases T. shI ((q + c * rowsI) * preloadCases T + i)
                                          * shH (r * (preloadCases T + 1) + i))"
    and q: "q < rowsI" and c: "c < ncolors" and r: "r < rowsH"
    and ok: "checkCaseBounds T \<or> preloadCases T dvd numImages a"
  shows "snd (snd (fold (\<lambda>m. fold (\<lambda>ci. block_step (dim3_ids (B_X T, B_Y T))
            (\<lambda>t. load_images T a images rowsI ncolors bPO pxc off t m ci)
            (\<lambda>t. load_hidActs T a hidActs rowsH (hidActsOff T a bfi mi t m) t ci) acc)
              (for_range (numImages a) (preloadCases T))) [mi..<mi + mpb] (jI, jH, (\<lambda>t k. 0)))) t k
         = (\<Sum>m = mi..<mi + mpb. \<Sum>n<numImages a.
              img_gather_val a images bPO pxc off m c q n * spec_hidAct a hidActs (bfi + r) m n)"
proof -
  let ?D = "\<lambda>m ci. (\<Sum>i<preloadCases T.
              if \<not> checkCaseBounds T \<or> ci + i < numImages a
              then img_gather_val a images bPO pxc off m c q (ci + i)
                   * spec_hidAct a hidActs (bfi + r) m (ci + i)
              else 0)"
  have P: "0 < preloadCases T" using wf by (simp add: wf_block_def)
  have "snd (snd (fold (\<lambda>m. fold (\<lambda>ci. block_step (dim3_ids (B_X T, B_Y T))
            (\<lambda>t. load_images T a images rowsI ncolors bPO pxc off t m ci)
            (\<lambda>t. load_hidActs T a hidActs rowsH (hidActsOff T a bfi mi t m) t ci) acc)
              (for_range (numImages a) (preloadCases T))) [mi..<mi + mpb] (jI, jH, (\<lambda>t k. 0)))) t k
     = snd (snd (jI, jH, (\<lambda>t k. 0::real))) t k
       + (\<Sum>m\<leftarrow>[mi..<mi + mpb]. \<Sum>ci\<leftarrow>for_range (numImages a) (preloadCases T). ?D m ci)"
  proof (rule block_loop_regs)
    fix m ci st assume "m \<in> set [mi..<mi + mpb]"
    then have m: "mi \<le> m" by simp
    show "snd (snd (block_step (dim3_ids (B_X T, B_Y T))
            (\<lambda>t. load_images T a images rowsI ncolors bPO pxc off t m ci)
            (\<lambda>t. load_hidActs T a hidActs rowsH (hidActsOff T a bfi mi t m) t ci) acc st)) t k
         = snd (snd st) t k + ?D m ci"
      by (rule block_step_regs [where q = q and c = c and r = r and ncolors = ncolors],
          rule wf, rule rI, rule rH, rule m, rule acc, rule q, rule c, rule r)
  qed
  also have "\<dots> = (\<Sum>m\<leftarrow>[mi..<mi + mpb]. \<Sum>n<numImages a.
              img_gather_val a images bPO pxc off m c q n * spec_hidAct a hidActs (bfi + r) m n)"
  proof -
    have "(\<Sum>ci\<leftarrow>for_range (numImages a) (preloadCases T). ?D m ci)
        = (\<Sum>n<numImages a. img_gather_val a images bPO pxc off m c q n * spec_hidAct a hidActs (bfi + r) m n)" for m
      by (rule tiles_sum [OF P ok, where h = "\<lambda>n. img_gather_val a images bPO pxc off m c q n * spec_hidAct a hidActs (bfi + r) m n"])
    then show ?thesis by simp
  qed
  also have "\<dots> = (\<Sum>m = mi..<mi + mpb. \<Sum>n<numImages a.
              img_gather_val a images bPO pxc off m c q n * spec_hidAct a hidActs (bfi + r) m n)"
    by (simp add: interv_sum_list_conv_sum_set_nat)
  finally show ?thesis .
qed

lemma rmw_id: "rmw g {} (\<lambda>mem. mem)"
  by (simp add: rmw_def)

lemma rmw_upd: "rmw g {x} (\<lambda>mem. mem(x := g x (mem x)))"
  by (simp add: rmw_def)

lemma rmw_fold:
  assumes "distinct as"
    and "\<And>a. a \<in> set as \<Longrightarrow> rmw g (W a) (f a)"
    and "\<And>a b. a \<in> set as \<Longrightarrow> b \<in> set as \<Longrightarrow> a \<noteq> b \<Longrightarrow> W a \<inter> W b = {}"
  shows "rmw g (\<Union>a\<in>set as. W a) (fold f as)"
  using assms
proof (induction as)
  case Nil
  then show ?case by (simp add: rmw_def)
next
  case (Cons a as)
  have 1: "rmw g (W a) (f a)" using Cons.prems by simp
  have 2: "rmw g (\<Union>a\<in>set as. W a) (fold f as)"
    using Cons.prems by (intro Cons.IH) auto
  have 3: "W a \<inter> (\<Union>a\<in>set as. W a) = {}"
  proof -
    have "W a \<inter> W b = {}" if "b \<in> set as" for b
      using Cons.prems(1) that by (intro Cons.prems(3)) auto
    then show ?thesis by blast
  qed
  show ?case unfolding rmw_def
  proof (intro allI)
    fix mem x
    have "fold f (a # as) mem x = fold f as (f a mem) x" by simp
    also have "\<dots> = (if x \<in> (\<Union>a\<in>set as. W a) then g x (f a mem x) else f a mem x)"
      using 2 by (simp add: rmw_def)
    also have "f a mem x = (if x \<in> W a then g x (mem x) else mem x)"
      using 1 by (simp add: rmw_def)
    finally show "fold f (a # as) mem x = (if x \<in> (\<Union>a\<in>set (a # as). W a) then g x (mem x) else mem x)"
      using 3 by auto
  qed
qed

lemma rmwD: "rmw g W f \<Longrightarrow> f mem x = (if x \<in> W then g x (mem x) else mem x)"
  by (simp add: rmw_def)

lemma distinct_dim3_ids: "distinct (dim3_ids d)"
proof (cases "fst d = 0")
  case True
  then have "dim3_ids d = []" by (simp add: dim3_ids_def)
  then show ?thesis by simp
next
  case False
  then show ?thesis
    unfolding dim3_ids_def
    by (intro distinct_concat) (auto simp: distinct_map inj_on_def)
qed

lemma target_index_decode:
  assumes "c < numFilterColors a" "px < filterPixels a" "f < numFilters a"
  shows "target_index a om c px f mod numFilters a = f"
    "(target_index a om c px f div numFilters a) mod filterPixels a = px"
    "(target_index a om c px f div (numFilters a * filterPixels a)) mod numFilterColors a = c"
    "target_index a om c px f div (numFilters a * filterPixels a * numFilterColors a) = om"
proof -
  let ?nF = "numFilters a" and ?fP = "filterPixels a" and ?nC = "numFilterColors a"
  show 1: "target_index a om c px f mod ?nF = f"
    using assms by (simp add: target_index_def)
  have d1: "target_index a om c px f div ?nF = (om * ?nC + c) * ?fP + px"
    using assms by (simp add: target_index_def)
  show 2: "(target_index a om c px f div ?nF) mod ?fP = px"
    unfolding d1 using assms by simp
  have d2: "target_index a om c px f div (?nF * ?fP) = om * ?nC + c"
    unfolding div_mult2_eq d1 using assms by simp
  show "(target_index a om c px f div (?nF * ?fP)) mod ?nC = c"
    unfolding d2 using assms by simp
  show "target_index a om c px f div (?nF * ?fP * ?nC) = om"
    unfolding div_mult2_eq [of _ "?nF * ?fP"] d2 using assms by simp
qed

lemma target_ref_index:
  assumes "c < numFilterColors a" "px < filterPixels a" "f < numFilters a"
  shows "target_ref a images hidActs (target_index a om c px f) = spec_weight_grad a images hidActs om c px f"
  unfolding target_ref_def target_index_decode [OF assms] ..

lemma target_index_inj:
  assumes "c < numFilterColors a" "px < filterPixels a" "f < numFilters a"
    and "c' < numFilterColors a" "px' < filterPixels a" "f' < numFilters a"
    and "target_index a om c px f = target_index a om' c' px' f'"
  shows "om = om' \<and> c = c' \<and> px = px' \<and> f = f'"
  using target_index_decode [OF assms(1-3), of om] target_index_decode [OF assms(4-6), of om'] assms(7)
  by simp

lemma idx_bound: "a < A \<Longrightarrow> b < B \<Longrightarrow> a * B + b < A * (B::nat)"
proof -
  assume a: "a < A" and b: "b < B"
  have "a * B + b < Suc a * B" using b by simp
  also have "\<dots> \<le> A * B" using a by (intro mult_le_mono1) simp
  finally show ?thesis .
qed

lemma target_index_less:
  assumes "om < nom" "c < numFilterColors a" "px < filterPixels a" "f < numFilters a"
  shows "target_index a om c px f < nom * numFilterColors a * filterPixels a * numFilters a"
proof -
  have "om * numFilterColors a + c < nom * numFilterColors a"
    using assms(1,2) by (rule idx_bound)
  then have "(om * numFilterColors a + c) * filterPixels a + px < nom * numFilterColors a * filterPixels a"
    using assms(3) by (rule idx_bound)
  then show ?thesis
    unfolding target_index_def using assms(4) by (rule idx_bound)
qed

lemma g_flt_decode:
  assumes "fst t < B_X T" "j < fpt"
  shows "g_flt T a fpt b t j div (B_X T * fpt) = fst b mod (numFilters a div (B_X T * fpt))"
    "(g_flt T a fpt b t j mod (B_X T * fpt)) div B_X T = j"
    "(g_flt T a fpt b t j mod (B_X T * fpt)) mod B_X T = fst t"
proof -
  have lt: "j * B_X T + fst t < B_X T * fpt"
    using idx_bound [OF assms(2,1)] by (simp add: mult.commute)
  show "g_flt T a fpt b t j div (B_X T * fpt) = fst b mod (numFilters a div (B_X T * fpt))"
    unfolding g_flt_def by (rule cell_div [OF lt])
  have m: "g_flt T a fpt b t j mod (B_X T * fpt) = j * B_X T + fst t"
    unfolding g_flt_def by (rule cell_mod [OF lt])
  show "(g_flt T a fpt b t j mod (B_X T * fpt)) div B_X T = j"
    unfolding m by (rule cell_div [OF assms(1)])
  show "(g_flt T a fpt b t j mod (B_X T * fpt)) mod B_X T = fst t"
    unfolding m by (rule cell_mod [OF assms(1)])
qed

lemma g_px_decode:
  assumes "snd t < B_Y T" "p < ppt"
  shows "g_px T a ppt nc b t p div (B_Y T * ppt) = snd b div (numFilterColors a div nc)"
    "(g_px T a ppt nc b t p mod (B_Y T * ppt)) div B_Y T = p"
    "(g_px T a ppt nc b t p mod (B_Y T * ppt)) mod B_Y T = snd t"
proof -
  have lt: "p * B_Y T + snd t < B_Y T * ppt"
    using idx_bound [OF assms(2,1)] by (simp add: mult.commute)
  show "g_px T a ppt nc b t p div (B_Y T * ppt) = snd b div (numFilterColors a div nc)"
    unfolding g_px_def by (rule cell_div [OF lt])
  have m: "g_px T a ppt nc b t p mod (B_Y T * ppt) = p * B_Y T + snd t"
    unfolding g_px_def by (rule cell_mod [OF lt])
  show "(g_px T a ppt nc b t p mod (B_Y T * ppt)) div B_Y T = p"
    unfolding m by (rule cell_div [OF assms(1)])
  show "(g_px T a ppt nc b t p mod (B_Y T * ppt)) mod B_Y T = snd t"
    unfolding m by (rule cell_mod [OF assms(1)])
qed

lemma g_col_decode:
  assumes "c < nc"
  shows "g_col a nc b c div nc = snd b mod (numFilterColors a div nc)"
    "g_col a nc b c mod nc = c"
  unfolding g_col_def by (rule cell_div [OF assms], rule cell_mod [OF assms])

text \<open>Two registers with the same coordinates are the same register of the same thread.\<close>

lemma coords_inj:
  assumes t: "fst t < B_X T" "snd t < B_Y T" "fst t' < B_X T" "snd t' < B_Y T"
    and r: "c < nc" "p < ppt" "j < fpt" "c' < nc" "p' < ppt" "j' < fpt"
    and eq: "g_om T a fpt b = g_om T a fpt b'" "g_col a nc b c = g_col a nc b' c'"
      "g_px T a ppt nc b t p = g_px T a ppt nc b' t' p'" "g_flt T a fpt b t j = g_flt T a fpt b' t' j'"
  shows "b = b' \<and> t = t' \<and> c = c' \<and> p = p' \<and> j = j'"
proof -
  let ?nFB = "numFilters a div (B_X T * fpt)" and ?nCB = "numFilterColors a div nc"
  have f: "fst b mod ?nFB = fst b' mod ?nFB" "j = j'" "fst t = fst t'"
    using g_flt_decode [OF t(1) r(3), of a b] g_flt_decode [OF t(3) r(6), of a b'] eq(4) by simp_all
  have x: "snd b div ?nCB = snd b' div ?nCB" "p = p'" "snd t = snd t'"
    using g_px_decode [OF t(2) r(2), of a nc b] g_px_decode [OF t(4) r(5), of a nc b'] eq(3) by simp_all
  have k: "snd b mod ?nCB = snd b' mod ?nCB" "c = c'"
    using g_col_decode [OF r(1), of a b] g_col_decode [OF r(4), of a b'] eq(2) by simp_all
  have "fst b div ?nFB = fst b' div ?nFB" using eq(1) by (simp add: g_om_def)
  then have "fst b = fst b'" using f(1) by (metis div_mult_mod_eq)
  moreover have "snd b = snd b'" using x(1) k(1) by (metis div_mult_mod_eq)
  ultimately show ?thesis using f x k by (simp add: prod_eq_iff)
qed

text \<open>The coordinates of a register of a launched thread are those of an entry of \<open>targets\<close>.\<close>

lemma coords_valid:
  assumes b: "fst b < nom * (numFilters a div (B_X T * fpt))"
    and t: "fst t < B_X T" and r: "c < nc" "j < fpt"
    and dF: "B_X T * fpt dvd numFilters a" and dC: "nc dvd numFilterColors a"
    and pos: "0 < numFilters a" "0 < numFilterColors a"
  shows "g_om T a fpt b < nom" "g_col a nc b c < numFilterColors a" "g_flt T a fpt b t j < numFilters a"
proof -
  let ?D = "B_X T * fpt" and ?nFB = "numFilters a div (B_X T * fpt)" and ?nCB = "numFilterColors a div nc"
  have D: "0 < ?D" using t r by (cases "?D = 0") auto
  have nFB: "0 < ?nFB" using dF pos(1) D by (auto simp: dvd_def)
  have nc: "0 < nc" using r by simp
  have nCB: "0 < ?nCB" using dC pos(2) nc by (auto simp: dvd_def)
  show "g_om T a fpt b < nom"
    unfolding g_om_def using b nFB by (simp add: less_mult_imp_div_less)
  have "g_col a nc b c < ?nCB * nc"
    unfolding g_col_def using nCB r(1) by (intro idx_bound) simp_all
  then show "g_col a nc b c < numFilterColors a" using dC by simp
  have lt: "j * B_X T + fst t < ?D"
    using idx_bound [OF r(2) t] by (simp add: mult.commute)
  have "g_flt T a fpt b t j < ?nFB * ?D"
    unfolding g_flt_def using nFB lt by (intro idx_bound) simp_all
  then show "g_flt T a fpt b t j < numFilters a" using dF by simp
qed

text \<open>Every entry of \<open>targets\<close> is the register of some launched thread.\<close>

lemma coords_surj:
  assumes om: "om < nom" and c: "c < numFilterColors a" and px: "px < filterPixels a"
    and f: "f < numFilters a"
    and dF: "B_X T * fpt dvd numFilters a" and dC: "nc dvd numFilterColors a"
    and pos: "0 < B_X T" "0 < B_Y T" "0 < fpt" "0 < ppt" "0 < nc"
  shows "\<exists>b t c' p j.
           fst b < nom * (numFilters a div (B_X T * fpt))
         \<and> snd b < ((filterPixels a + B_Y T * ppt - 1) div (B_Y T * ppt)) * (numFilterColors a div nc)
         \<and> fst t < B_X T \<and> snd t < B_Y T \<and> c' < nc \<and> p < ppt \<and> j < fpt
         \<and> g_om T a fpt b = om \<and> g_col a nc b c' = c
         \<and> g_px T a ppt nc b t p = px \<and> g_flt T a fpt b t j = f"
proof -
  let ?D = "B_X T * fpt" and ?nFB = "numFilters a div (B_X T * fpt)"
  let ?nCB = "numFilterColors a div nc" and ?R = "B_Y T * ppt"
  have D: "0 < ?D" and R: "0 < ?R" using pos by simp_all
  have nF: "numFilters a = ?nFB * ?D" using dF by simp
  have nFC: "numFilterColors a = ?nCB * nc" using dC by simp
  have fb: "f div ?D < ?nFB" using f nF D by (metis less_mult_imp_div_less)
  have cb: "c div nc < ?nCB" using c nFC pos(5) by (metis less_mult_imp_div_less)
  have nFB: "0 < ?nFB" using fb by simp
  have nCB: "0 < ?nCB" using cb by simp
  let ?b = "(om * ?nFB + f div ?D, (px div ?R) * ?nCB + c div nc)"
  let ?t = "((f mod ?D) mod B_X T, (px mod ?R) mod B_Y T)"
  have 1: "fst ?b < nom * ?nFB" using idx_bound [OF om fb] by simp
  have "px div ?R < (filterPixels a + ?R - 1) div ?R"
  proof -
    have "px div ?R \<le> (filterPixels a - 1) div ?R" using px by (intro div_le_mono) simp
    also have "\<dots> < (filterPixels a - 1) div ?R + 1" by simp
    also have "\<dots> = (filterPixels a - 1 + ?R) div ?R" using R by simp
    also have "filterPixels a - 1 + ?R = filterPixels a + ?R - 1" using px by simp
    finally show ?thesis .
  qed
  then have 2: "snd ?b < ((filterPixels a + ?R - 1) div ?R) * ?nCB"
    using idx_bound [OF _ cb] by simp
  have 3: "fst ?t < B_X T" "snd ?t < B_Y T" using pos by simp_all
  have 4: "c mod nc < nc" using pos by simp
  have 5: "(px mod ?R) div B_Y T < ppt"
    using R pos by (simp add: less_mult_imp_div_less mult.commute)
  have 6: "(f mod ?D) div B_X T < fpt"
    using D pos by (simp add: less_mult_imp_div_less mult.commute)
  have 7: "g_om T a fpt ?b = om" unfolding g_om_def using fb by simp
  have 8: "g_col a nc ?b (c mod nc) = c" unfolding g_col_def using cb by simp
  have 9: "g_px T a ppt nc ?b ?t ((px mod ?R) div B_Y T) = px"
    unfolding g_px_def using cb div_mult_mod_eq [of px ?R] by simp
  have 10: "g_flt T a fpt ?b ?t ((f mod ?D) div B_X T) = f"
    unfolding g_flt_def using fb div_mult_mod_eq [of f ?D] by simp
  show ?thesis
    using 1 2 3 4 5 6 7 8 9 10 by blast
qed

lemma grid_pos:
  assumes wf: "wf_grid T a ppt fpt nc nom grid" and b: "b \<in> set (dim3_ids grid)"
  shows "fst b < nom * (numFilters a div (B_X T * fpt))" "0 < numFilters a" "0 < numFilterColors a"
proof -
  have g: "grid = (nom * (numFilters a div (B_X T * fpt)),
               ((filterPixels a + B_Y T * ppt - 1) div (B_Y T * ppt)) * (numFilterColors a div nc))"
    using wf by (simp add: wf_grid_def)
  have bx: "fst b < nom * (numFilters a div (B_X T * fpt))"
    and by': "snd b < ((filterPixels a + B_Y T * ppt - 1) div (B_Y T * ppt)) * (numFilterColors a div nc)"
    using b unfolding g by (auto simp: set_dim3_ids)
  show "fst b < nom * (numFilters a div (B_X T * fpt))" by (rule bx)
  have "0 < numFilters a div (B_X T * fpt)" using bx by (cases "numFilters a div (B_X T * fpt) = 0") auto
  then show "0 < numFilters a" by (cases "numFilters a = 0") auto
  have "0 < numFilterColors a div nc" using by' by (cases "numFilterColors a div nc = 0") auto
  then show "0 < numFilterColors a" by (cases "numFilterColors a = 0") auto
qed

lemma cells_disjoint:
  assumes wf: "wf_grid T a ppt fpt nc nom grid"
    and b: "b \<in> set (dim3_ids grid)" "b' \<in> set (dim3_ids grid)"
    and t: "t \<in> set (dim3_ids (B_X T, B_Y T))" "t' \<in> set (dim3_ids (B_X T, B_Y T))"
    and ne: "(b, t) \<noteq> (b', t')"
  shows "cells T a ppt fpt nc b t \<inter> cells T a ppt fpt nc b' t' = {}"
proof (rule ccontr)
  assume "cells T a ppt fpt nc b t \<inter> cells T a ppt fpt nc b' t' \<noteq> {}"
  then obtain x where x: "x \<in> cells T a ppt fpt nc b t" "x \<in> cells T a ppt fpt nc b' t'" by blast
  have tt: "fst t < B_X T" "snd t < B_Y T" "fst t' < B_X T" "snd t' < B_Y T"
    using t by (auto simp: set_dim3_ids)
  have dF: "B_X T * fpt dvd numFilters a" and dC: "nc dvd numFilterColors a"
    using wf by (auto simp: wf_grid_def)
  obtain c p j where 1: "c < nc" "p < ppt" "j < fpt" "g_px T a ppt nc b t p < filterPixels a"
    "x = target_index a (g_om T a fpt b) (g_col a nc b c) (g_px T a ppt nc b t p) (g_flt T a fpt b t j)"
    using x(1) by (auto simp: cells_def)
  obtain c' p' j' where 2: "c' < nc" "p' < ppt" "j' < fpt" "g_px T a ppt nc b' t' p' < filterPixels a"
    "x = target_index a (g_om T a fpt b') (g_col a nc b' c') (g_px T a ppt nc b' t' p') (g_flt T a fpt b' t' j')"
    using x(2) by (auto simp: cells_def)
  note v1 = coords_valid [OF grid_pos(1) [OF wf b(1)] tt(1) 1(1,3) dF dC grid_pos(2,3) [OF wf b(1)]]
  note v2 = coords_valid [OF grid_pos(1) [OF wf b(2)] tt(3) 2(1,3) dF dC grid_pos(2,3) [OF wf b(2)]]
  have "g_om T a fpt b = g_om T a fpt b' \<and> g_col a nc b c = g_col a nc b' c'
      \<and> g_px T a ppt nc b t p = g_px T a ppt nc b' t' p' \<and> g_flt T a fpt b t j = g_flt T a fpt b' t' j'"
    using 1(5) 2(5) by (intro target_index_inj [OF v1(2) 1(4) v1(3) v2(2) 2(4) v2(3)]) simp
  then have "b = b' \<and> t = t' \<and> c = c' \<and> p = p' \<and> j = j'"
    using coords_inj [OF tt 1(1-3) 2(1-3), of a b b'] by blast
  then show False using ne by simp
qed

lemma radix4:
  assumes "x < A * B * C * (D::nat)"
  shows "\<exists>a b c d. a < A \<and> b < B \<and> c < C \<and> d < D \<and> x = ((a * B + b) * C + c) * D + d"
proof -
  have D: "0 < D" using assms by (cases "D = 0") auto
  have C: "0 < C" using assms by (cases "C = 0") auto
  have B: "0 < B" using assms by (cases "B = 0") auto
  let ?d = "x mod D" and ?y = "x div D"
  let ?c = "?y mod C" and ?z = "?y div C"
  let ?b = "?z mod B" and ?a = "?z div B"
  have "?y < A * B * C" using assms D by (simp add: less_mult_imp_div_less)
  then have "?z < A * B" using C by (simp add: less_mult_imp_div_less)
  then have a: "?a < A" using B by (simp add: less_mult_imp_div_less)
  have "x = ?y * D + ?d" by simp
  also have "?y = ?z * C + ?c" by simp
  also have "?z = ?a * B + ?b" by simp
  finally have "x = ((?a * B + ?b) * C + ?c) * D + ?d" .
  moreover have "?b < B" "?c < C" "?d < D" using B C D by simp_all
  ultimately show ?thesis using a by blast
qed

lemma cells_union:
  assumes wf: "wf_grid T a ppt fpt nc nom grid"
  shows "(\<Union>b\<in>set (dim3_ids grid). \<Union>t\<in>set (dim3_ids (B_X T, B_Y T)). cells T a ppt fpt nc b t)
         = {x. x < nom * numFilterColors a * filterPixels a * numFilters a}"
proof (intro set_eqI iffI)
  fix x
  assume "x \<in> (\<Union>b\<in>set (dim3_ids grid). \<Union>t\<in>set (dim3_ids (B_X T, B_Y T)). cells T a ppt fpt nc b t)"
  then obtain b t where b: "b \<in> set (dim3_ids grid)" and t: "t \<in> set (dim3_ids (B_X T, B_Y T))"
    and x: "x \<in> cells T a ppt fpt nc b t" by blast
  have tt: "fst t < B_X T" using t by (auto simp: set_dim3_ids)
  have dF: "B_X T * fpt dvd numFilters a" and dC: "nc dvd numFilterColors a"
    using wf by (auto simp: wf_grid_def)
  obtain c p j where 1: "c < nc" "p < ppt" "j < fpt" "g_px T a ppt nc b t p < filterPixels a"
    "x = target_index a (g_om T a fpt b) (g_col a nc b c) (g_px T a ppt nc b t p) (g_flt T a fpt b t j)"
    using x by (auto simp: cells_def)
  note v = coords_valid [OF grid_pos(1) [OF wf b] tt 1(1,3) dF dC grid_pos(2,3) [OF wf b]]
  show "x \<in> {x. x < nom * numFilterColors a * filterPixels a * numFilters a}"
    unfolding 1(5) using target_index_less [OF v(1,2) 1(4) v(3)] by simp
next
  fix x
  assume "x \<in> {x. x < nom * numFilterColors a * filterPixels a * numFilters a}"
  then have "x < nom * numFilterColors a * filterPixels a * numFilters a" by simp
  from radix4 [OF this] obtain om c px f where
    o: "om < nom" "c < numFilterColors a" "px < filterPixels a" "f < numFilters a"
    and x: "x = target_index a om c px f"
    unfolding target_index_def by blast
  have w: "0 < B_X T" "0 < B_Y T" "0 < fpt" "0 < ppt" "0 < nc"
    "B_X T * fpt dvd numFilters a" "nc dvd numFilterColors a"
    and g: "grid = (nom * (numFilters a div (B_X T * fpt)),
               ((filterPixels a + B_Y T * ppt - 1) div (B_Y T * ppt)) * (numFilterColors a div nc))"
    using wf by (auto simp: wf_grid_def)
  from coords_surj [OF o w(6,7) w(1-5)]
  obtain b t c' p j where s: "fst b < nom * (numFilters a div (B_X T * fpt))"
         "snd b < ((filterPixels a + B_Y T * ppt - 1) div (B_Y T * ppt)) * (numFilterColors a div nc)"
         "fst t < B_X T" "snd t < B_Y T" "c' < nc" "p < ppt" "j < fpt"
         "g_om T a fpt b = om" "g_col a nc b c' = c"
         "g_px T a ppt nc b t p = px" "g_flt T a fpt b t j = f"
    by blast
  have b: "b \<in> set (dim3_ids grid)" unfolding g using s(1,2) by (cases b) (simp add: set_dim3_ids)
  have t: "t \<in> set (dim3_ids (B_X T, B_Y T))" using s(3,4) by (cases t) (simp add: set_dim3_ids)
  have "x \<in> cells T a ppt fpt nc b t"
    unfolding cells_def x using s(5-11) o(3) by blast
  then show "x \<in> (\<Union>b\<in>set (dim3_ids grid). \<Union>t\<in>set (dim3_ids (B_X T, B_Y T)). cells T a ppt fpt nc b t)"
    using b t by blast
qed

lemma grid_blend:
  assumes wf: "wf_grid T a ppt fpt nc nom grid"
    and wr: "\<And>b t. b \<in> set (dim3_ids grid) \<Longrightarrow> t \<in> set (dim3_ids (B_X T, B_Y T)) \<Longrightarrow>
               rmw (blend T a images hidActs) (cells T a ppt fpt nc b t) (wr b t)"
  shows "fold (\<lambda>b. fold (wr b) (dim3_ids (B_X T, B_Y T))) (dim3_ids grid) targets
         = (\<lambda>x. if x < nom * numFilterColors a * filterPixels a * numFilters a
                 then blend T a images hidActs x (targets x) else targets x)"
proof -
  let ?ts = "dim3_ids (B_X T, B_Y T)" and ?bs = "dim3_ids grid"
  let ?G = "blend T a images hidActs"
  have blk: "rmw ?G (\<Union>t\<in>set ?ts. cells T a ppt fpt nc b t) (fold (wr b) ?ts)" if b: "b \<in> set ?bs" for b
  proof (rule rmw_fold [OF distinct_dim3_ids])
    fix t assume "t \<in> set ?ts"
    then show "rmw ?G (cells T a ppt fpt nc b t) (wr b t)" using b by (intro wr)
  next
    fix t t' assume "t \<in> set ?ts" "t' \<in> set ?ts" "t \<noteq> t'"
    then show "cells T a ppt fpt nc b t \<inter> cells T a ppt fpt nc b t' = {}"
      using b by (intro cells_disjoint [OF wf]) simp_all
  qed
  have "rmw ?G (\<Union>b\<in>set ?bs. \<Union>t\<in>set ?ts. cells T a ppt fpt nc b t) (fold (\<lambda>b. fold (wr b) ?ts) ?bs)"
  proof (rule rmw_fold [OF distinct_dim3_ids])
    fix b assume "b \<in> set ?bs"
    then show "rmw ?G (\<Union>t\<in>set ?ts. cells T a ppt fpt nc b t) (fold (wr b) ?ts)" by (rule blk)
  next
    fix b b' assume bb: "b \<in> set ?bs" "b' \<in> set ?bs" "b \<noteq> b'"
    have "cells T a ppt fpt nc b t \<inter> cells T a ppt fpt nc b' t' = {}"
      if "t \<in> set ?ts" "t' \<in> set ?ts" for t t'
      using bb that by (intro cells_disjoint [OF wf]) simp_all
    then show "(\<Union>t\<in>set ?ts. cells T a ppt fpt nc b t) \<inter> (\<Union>t\<in>set ?ts. cells T a ppt fpt nc b' t) = {}"
      by blast
  qed
  then have "rmw ?G {x. x < nom * numFilterColors a * filterPixels a * numFilters a}
               (fold (\<lambda>b. fold (wr b) ?ts) ?bs)"
    unfolding cells_union [OF wf] .
  then show ?thesis by (auto simp: rmw_def fun_eq_iff)
qed

lemma modpos_spec:
  assumes X: "0 < numModulesX a"
  shows "imgLoadModPosY a m + int ((bPO + q) div filterSize a) = fst (spec_pixel a m (bPO + q))"
    "imgLoadModPosX a m + int ((bPO + q) mod filterSize a) = snd (spec_pixel a m (bPO + q))"
proof -
  have d: "int m sdiv numModulesX a = int (m div nat (numModulesX a))"
    using X by (simp add: zdiv_int)
  have r: "int m smod numModulesX a = int (m mod nat (numModulesX a))"
    using X by (simp add: zmod_int)
  show "imgLoadModPosY a m + int ((bPO + q) div filterSize a) = fst (spec_pixel a m (bPO + q))"
    by (simp add: imgLoadModPosY_def spec_pixel_def d)
  show "imgLoadModPosX a m + int ((bPO + q) mod filterSize a) = snd (spec_pixel a m (bPO + q))"
    by (simp add: imgLoadModPosX_def spec_pixel_def r)
qed

lemma nat_pix_index:
  assumes "0 \<le> y" "0 \<le> x"
  shows "nat ((y * int S + x) * int St) = (nat y * S + nat x) * St"
proof -
  have "(y * int S + x) * int St = int ((nat y * S + nat x) * St)"
    using assms by simp
  then show ?thesis by (simp only: nat_int)
qed

lemma img_gather_spec:
  assumes X: "0 < numModulesX a"
    and pxc: "pxc q = ((bPO + q) div filterSize a, (bPO + q) mod filterSize a)"
    and lt: "q + bPO < filterPixels a"
  shows "img_gather_val a images bPO pxc (col0 * imgPixels a * imgStride a) m c q n
         = spec_image a images (col0 + c) m (bPO + q) n"
proof -
  obtain y x where yx: "spec_pixel a m (bPO + q) = (y, x)" by (cases "spec_pixel a m (bPO + q)")
  have Y: "imgLoadModPosY a m + int (fst (pxc q)) = y" and X': "imgLoadModPosX a m + int (snd (pxc q)) = x"
    using modpos_spec [OF X, of m bPO q] yx by (simp_all add: pxc)
  show ?thesis
  proof (cases "0 \<le> y \<and> y < int (imgSize a) \<and> 0 \<le> x \<and> x < int (imgSize a)")
    case True
    then have n: "nat ((y * int (imgSize a) + x) * int (imgStride a)) = (nat y * imgSize a + nat x) * imgStride a"
      by (intro nat_pix_index) simp_all
    have e: "col0 * imgPixels a * imgStride a + n + c * imgPixels a * imgStride a
            + (nat y * imgSize a + nat x) * imgStride a
          = ((col0 + c) * imgPixels a + (nat y * imgSize a + nat x)) * imgStride a + n"
      by (simp add: algebra_simps)
    have "img_gather_val a images bPO pxc (col0 * imgPixels a * imgStride a) m c q n
        = images (col0 * imgPixels a * imgStride a + n + c * imgPixels a * imgStride a
            + (nat y * imgSize a + nat x) * imgStride a)"
      using True lt by (simp add: img_gather_val_def Let_def Y X' n)
    also have "\<dots> = spec_image a images (col0 + c) m (bPO + q) n"
      unfolding e using True by (simp add: spec_image_def yx)
    finally show ?thesis .
  next
    case False
    then show ?thesis
      using lt by (auto simp add: img_gather_val_def spec_image_def Let_def Y X' yx)
  qed
qed

lemma group_div:
  assumes "D dvd n" "D dvd b" "r < D"
  shows "(b + r) div n = b div (n::nat)"
proof -
  obtain n' where n: "n = D * n'" using assms(1) by (auto simp: dvd_def)
  obtain b' where b: "b = D * b'" using assms(2) by (auto simp: dvd_def)
  have D: "0 < D" using assms(3) by simp
  have "(b + r) div n = ((D * b' + r) div D) div n'" unfolding n b by (simp only: div_mult2_eq)
  also have "(D * b' + r) div D = b'" using assms(3) by simp
  also have "b' div n' = b div n" unfolding n b using D by simp
  finally show ?thesis .
qed

lemma run_block_unfold:
  "run_block ts ms tiles ldI ldH acc wr junk targets
   = fold (\<lambda>t. wr t (snd (snd (fold (\<lambda>m. fold (\<lambda>caseIdx. block_step ts (\<lambda>t. ldI t m caseIdx) (\<lambda>t. ldH t m caseIdx) acc) tiles) ms
                 (fst junk, snd junk, (\<lambda>t k. 0)))) t)) ts targets"
  by (simp add: run_block_def Let_def)

lemma kernel_generic:
  assumes wfg: "wf_grid T a ppt fpt nc nom grid"
    and wfb: "wf_block T" and rI: "loadStep T dvd B_Y T * ppt" and rH: "loadStep T dvd B_X T * fpt"
    and X: "0 < numModulesX a" and ok: "checkCaseBounds T \<or> preloadCases T dvd numImages a"
    and grp: "B_X T * fpt dvd numFiltersPerGroup a"
    and pxc: "\<And>b q. b \<in> set (dim3_ids grid) \<Longrightarrow> q + g_bPO T a ppt nc b < filterPixels a \<Longrightarrow>
                pxc b q = ((g_bPO T a ppt nc b + q) div filterSize a, (g_bPO T a ppt nc b + q) mod filterSize a)"
    and off: "\<And>b. b \<in> set (dim3_ids grid) \<Longrightarrow>
                off b = ((g_bF T a fpt b div numFiltersPerGroup a) * numFilterColors a + g_col a nc b 0)
                          * imgPixels a * imgStride a"
    and acc: "\<And>t c p j shI shH prd. c < nc \<Longrightarrow> p < ppt \<Longrightarrow> j < fpt \<Longrightarrow>
                acc t shI shH prd (key c p j)
                = prd (key c p j) + (\<Sum>i<preloadCases T.
                     shI ((snd t + p * B_Y T + c * (B_Y T * ppt)) * preloadCases T + i)
                     * shH ((fst t + j * B_X T) * (preloadCases T + 1) + i))"
    and wr: "\<And>b t prd. b \<in> set (dim3_ids grid) \<Longrightarrow> t \<in> set (dim3_ids (B_X T, B_Y T)) \<Longrightarrow>
               (\<And>c p j. c < nc \<Longrightarrow> p < ppt \<Longrightarrow> j < fpt \<Longrightarrow> g_px T a ppt nc b t p < filterPixels a \<Longrightarrow>
                  prd (key c p j) = spec_weight_grad a images hidActs (g_om T a fpt b) (g_col a nc b c)
                                      (g_px T a ppt nc b t p) (g_flt T a fpt b t j)) \<Longrightarrow>
               rmw (blend T a images hidActs) (cells T a ppt fpt nc b t) (wr b t prd)"
  shows "fold (\<lambda>b. run_block (dim3_ids (B_X T, B_Y T))
                  [modulesPerBlock a * g_om T a fpt b ..< modulesPerBlock a * g_om T a fpt b + modulesPerBlock a]
                  (for_range (numImages a) (preloadCases T))
                  (load_images T a images (B_Y T * ppt) nc (g_bPO T a ppt nc b) (pxc b) (off b))
                  (\<lambda>t m. load_hidActs T a hidActs (B_X T * fpt)
                            (hidActsOff T a (g_bF T a fpt b) (modulesPerBlock a * g_om T a fpt b) t m) t)
                  acc (wr b) (junk b))
           (dim3_ids grid) targets
         = (\<lambda>x. if x < nom * numFilterColors a * filterPixels a * numFilters a
                 then blend T a images hidActs x (targets x) else targets x)"
proof -
  let ?ts = "dim3_ids (B_X T, B_Y T)"
  let ?mi = "\<lambda>b. modulesPerBlock a * g_om T a fpt b"
  let ?prdf = "\<lambda>b. snd (snd (fold (\<lambda>m. fold (\<lambda>ci. block_step ?ts
            (\<lambda>t. load_images T a images (B_Y T * ppt) nc (g_bPO T a ppt nc b) (pxc b) (off b) t m ci)
            (\<lambda>t. load_hidActs T a hidActs (B_X T * fpt) (hidActsOff T a (g_bF T a fpt b) (?mi b) t m) t ci) acc)
              (for_range (numImages a) (preloadCases T))) [?mi b..<?mi b + modulesPerBlock a]
              (fst (junk b), snd (junk b), (\<lambda>t k. 0))))"
  have regs: "?prdf b t (key c p j) = spec_weight_grad a images hidActs (g_om T a fpt b) (g_col a nc b c)
                                      (g_px T a ppt nc b t p) (g_flt T a fpt b t j)"
    if b: "b \<in> set (dim3_ids grid)" and t: "t \<in> set ?ts" and r: "c < nc" "p < ppt" "j < fpt"
      and px: "g_px T a ppt nc b t p < filterPixels a" for b t c p j
  proof -
    have tt: "fst t < B_X T" "snd t < B_Y T" using t by (auto simp: set_dim3_ids)
    have q: "snd t + p * B_Y T < B_Y T * ppt"
      using idx_bound [OF r(2) tt(2)] by (simp add: add.commute mult.commute)
    have rr: "fst t + j * B_X T < B_X T * fpt"
      using idx_bound [OF r(3) tt(1)] by (simp add: add.commute mult.commute)
    have pxe: "g_px T a ppt nc b t p = g_bPO T a ppt nc b + (snd t + p * B_Y T)"
      by (simp add: g_px_def g_bPO_def)
    have flte: "g_flt T a fpt b t j = g_bF T a fpt b + (fst t + j * B_X T)"
      by (simp add: g_flt_def g_bF_def)
    have lt: "snd t + p * B_Y T + g_bPO T a ppt nc b < filterPixels a"
      using px unfolding pxe by (simp add: add.commute)
    have "B_X T * fpt dvd g_bF T a fpt b" by (simp add: g_bF_def)
    from group_div [OF grp this rr]
    have gd: "g_flt T a fpt b t j div numFiltersPerGroup a = g_bF T a fpt b div numFiltersPerGroup a"
      unfolding flte .
    have col: "(g_bF T a fpt b div numFiltersPerGroup a) * numFilterColors a + g_col a nc b 0 + c
        = (g_flt T a fpt b t j div numFiltersPerGroup a) * numFilterColors a + g_col a nc b c"
      unfolding gd by (simp add: g_col_def)
    have "?prdf b t (key c p j)
       = (\<Sum>m = ?mi b..<?mi b + modulesPerBlock a. \<Sum>n<numImages a.
              img_gather_val a images (g_bPO T a ppt nc b) (pxc b) (off b) m c (snd t + p * B_Y T) n
              * spec_hidAct a hidActs (g_bF T a fpt b + (fst t + j * B_X T)) m n)"
      by (rule block_regs [where ncolors = nc], rule wfb, rule rI, rule rH, rule acc [OF r],
          rule q, rule r(1), rule rr, rule ok)
    also have "\<dots> = (\<Sum>m = ?mi b..<?mi b + modulesPerBlock a. \<Sum>n<numImages a.
              spec_image a images ((g_flt T a fpt b t j div numFiltersPerGroup a) * numFilterColors a + g_col a nc b c)
                 m (g_px T a ppt nc b t p) n
              * spec_hidAct a hidActs (g_flt T a fpt b t j) m n)"
    proof -
      have "img_gather_val a images (g_bPO T a ppt nc b) (pxc b)
              (((g_bF T a fpt b div numFiltersPerGroup a) * numFilterColors a + g_col a nc b 0)
                          * imgPixels a * imgStride a) m c (snd t + p * B_Y T) n
          = spec_image a images ((g_bF T a fpt b div numFiltersPerGroup a) * numFilterColors a + g_col a nc b 0 + c)
               m (g_bPO T a ppt nc b + (snd t + p * B_Y T)) n" for m n
        by (rule img_gather_spec [where pxc = "pxc b" and q = "snd t + p * B_Y T"], rule X,
            rule pxc [OF b lt], rule lt)
      then show ?thesis unfolding off [OF b] col pxe flte by simp
    qed
    also have "\<dots> = spec_weight_grad a images hidActs (g_om T a fpt b) (g_col a nc b c)
                                      (g_px T a ppt nc b t p) (g_flt T a fpt b t j)"
      by (simp add: spec_weight_grad_def mult.commute)
    finally show ?thesis .
  qed
  have "fold (\<lambda>b. run_block ?ts [?mi b ..< ?mi b + modulesPerBlock a]
                  (for_range (numImages a) (preloadCases T))
                  (load_images T a images (B_Y T * ppt) nc (g_bPO T a ppt nc b) (pxc b) (off b))
                  (\<lambda>t m. load_hidActs T a hidActs (B_X T * fpt)
                            (hidActsOff T a (g_bF T a fpt b) (?mi b) t m) t)
                  acc (wr b) (junk b))
           (dim3_ids grid) targets
       = fold (\<lambda>b. fold (\<lambda>t. wr b t (?prdf b t)) ?ts) (dim3_ids grid) targets"
    unfolding run_block_unfold ..
  also have "\<dots> = (\<lambda>x. if x < nom * numFilterColors a * filterPixels a * numFilters a
                 then blend T a images hidActs x (targets x) else targets x)"
  proof (rule grid_blend [OF wfg])
    fix b t assume b: "b \<in> set (dim3_ids grid)" and t: "t \<in> set ?ts"
    show "rmw (blend T a images hidActs) (cells T a ppt fpt nc b t) (wr b t (?prdf b t))"
      by (rule wr [OF b t]) (rule regs [OF b t])
  qed
  finally show ?thesis .
qed

lemma rmw_fold2:
  assumes inj: "\<And>u v u' v'. u \<in> set us \<Longrightarrow> v \<in> set vs \<Longrightarrow> u' \<in> set us \<Longrightarrow> v' \<in> set vs \<Longrightarrow>
                  cell u v = cell u' v' \<Longrightarrow> u = u' \<and> v = v'"
    and d: "distinct us" "distinct vs"
  shows "rmw G (\<Union>u\<in>set us. \<Union>v\<in>set vs. {cell u v})
           (fold (\<lambda>u. fold (\<lambda>v tg. tg(cell u v := G (cell u v) (tg (cell u v)))) vs) us)"
proof (rule rmw_fold [OF d(1)])
  fix u assume u: "u \<in> set us"
  show "rmw G (\<Union>v\<in>set vs. {cell u v}) (fold (\<lambda>v tg. tg(cell u v := G (cell u v) (tg (cell u v)))) vs)"
  proof (rule rmw_fold [OF d(2)])
    fix v show "rmw G {cell u v} (\<lambda>tg. tg(cell u v := G (cell u v) (tg (cell u v))))"
      by (rule rmw_upd)
  next
    fix v v' assume "v \<in> set vs" "v' \<in> set vs" "v \<noteq> v'"
    then show "{cell u v} \<inter> {cell u v'} = {}" using inj [OF u _ u] by auto
  qed
next
  fix u u' assume "u \<in> set us" "u' \<in> set us" "u \<noteq> u'"
  then show "(\<Union>v\<in>set vs. {cell u v}) \<inter> (\<Union>v\<in>set vs. {cell u' v}) = {}"
    using inj by fastforce
qed

lemma fold_filter: "fold (\<lambda>u tg. if grd u then f u tg else tg) us = fold f (filter grd us)"
  by (induction us) (auto simp: fun_eq_iff)

lemma cell_inj:
  assumes wf: "wf_grid T a ppt fpt nc nom grid"
    and b: "b \<in> set (dim3_ids grid)" and t: "t \<in> set (dim3_ids (B_X T, B_Y T))"
    and 1: "c < nc" "p < ppt" "j < fpt" "g_px T a ppt nc b t p < filterPixels a"
    and 2: "c' < nc" "p' < ppt" "j' < fpt" "g_px T a ppt nc b t p' < filterPixels a"
    and eq: "target_index a (g_om T a fpt b) (g_col a nc b c) (g_px T a ppt nc b t p) (g_flt T a fpt b t j)
           = target_index a (g_om T a fpt b) (g_col a nc b c') (g_px T a ppt nc b t p') (g_flt T a fpt b t j')"
  shows "c = c' \<and> p = p' \<and> j = j'"
proof -
  have tt: "fst t < B_X T" "snd t < B_Y T" using t by (auto simp: set_dim3_ids)
  have dF: "B_X T * fpt dvd numFilters a" and dC: "nc dvd numFilterColors a"
    using wf by (auto simp: wf_grid_def)
  note v1 = coords_valid [OF grid_pos(1) [OF wf b] tt(1) 1(1,3) dF dC grid_pos(2,3) [OF wf b]]
  note v2 = coords_valid [OF grid_pos(1) [OF wf b] tt(1) 2(1,3) dF dC grid_pos(2,3) [OF wf b]]
  have "g_om T a fpt b = g_om T a fpt b \<and> g_col a nc b c = g_col a nc b c'
      \<and> g_px T a ppt nc b t p = g_px T a ppt nc b t p' \<and> g_flt T a fpt b t j = g_flt T a fpt b t j'"
    using eq by (intro target_index_inj [OF v1(2) 1(4) v1(3) v2(2) 2(4) v2(3)]) simp
  then show ?thesis
    using coords_inj [OF tt tt 1(1-3) 2(1-3), of a b b] by blast
qed

lemma cell_ref:
  assumes wf: "wf_grid T a ppt fpt nc nom grid"
    and b: "b \<in> set (dim3_ids grid)" and t: "t \<in> set (dim3_ids (B_X T, B_Y T))"
    and 1: "c < nc" "j < fpt" "g_px T a ppt nc b t p < filterPixels a"
  shows "target_ref a images hidActs
           (target_index a (g_om T a fpt b) (g_col a nc b c) (g_px T a ppt nc b t p) (g_flt T a fpt b t j))
         = spec_weight_grad a images hidActs (g_om T a fpt b) (g_col a nc b c) (g_px T a ppt nc b t p)
             (g_flt T a fpt b t j)"
proof -
  have tt: "fst t < B_X T" using t by (auto simp: set_dim3_ids)
  have dF: "B_X T * fpt dvd numFilters a" and dC: "nc dvd numFilterColors a"
    using wf by (auto simp: wf_grid_def)
  note v = coords_valid [OF grid_pos(1) [OF wf b] tt 1(1,2) dF dC grid_pos(2,3) [OF wf b]]
  show ?thesis by (rule target_ref_index [OF v(2) 1(3) v(3)])
qed

lemma target_index_shift:
  "target_index a om (g_col a nc b 0) (g_px T a ppt nc b t 0) (g_flt T a fpt b t 0)
     + (p * B_Y T * numFilters a + c * filterPixels a * numFilters a + j * B_X T)
   = target_index a om (g_col a nc b c) (g_px T a ppt nc b t p) (g_flt T a fpt b t j)"
  by (simp add: target_index_def g_col_def g_px_def g_flt_def algebra_simps)

lemma mf_write_rmw:
  assumes wf: "wf_grid T a 1 (filtersPerThread T) (colorsPerThread T) nom grid"
    and b: "b \<in> set (dim3_ids grid)" and t: "t \<in> set (dim3_ids (B_X T, B_Y T))"
    and bPO: "bPO = g_bPO T a 1 (colorsPerThread T) b"
    and tOff: "tOff = target_index a (g_om T a (filtersPerThread T) b) (g_col a (colorsPerThread T) b 0)
                        (g_px T a 1 (colorsPerThread T) b t 0) (g_flt T a (filtersPerThread T) b t 0)"
    and prd: "\<And>c p j. c < colorsPerThread T \<Longrightarrow> p < 1 \<Longrightarrow> j < filtersPerThread T \<Longrightarrow>
               g_px T a 1 (colorsPerThread T) b t p < filterPixels a \<Longrightarrow>
               prd (c, j) = spec_weight_grad a images hidActs (g_om T a (filtersPerThread T) b)
                   (g_col a (colorsPerThread T) b c) (g_px T a 1 (colorsPerThread T) b t p)
                   (g_flt T a (filtersPerThread T) b t j)"
  shows "rmw (blend T a images hidActs) (cells T a 1 (filtersPerThread T) (colorsPerThread T) b t)
           (mf_write T a bPO tOff t prd)"
proof -
  let ?fpt = "filtersPerThread T" and ?nc = "colorsPerThread T"
  let ?G = "blend T a images hidActs"
  let ?cell = "\<lambda>j c. target_index a (g_om T a ?fpt b) (g_col a ?nc b c) (g_px T a 1 ?nc b t 0) (g_flt T a ?fpt b t j)"
  have px: "g_px T a 1 ?nc b t 0 = bPO + snd t" by (simp add: g_px_def bPO g_bPO_def)
  have cell: "tOff + (c * filterPixels a * numFilters a + j * B_X T) = ?cell j c" for c j
    unfolding tOff using target_index_shift [of a "g_om T a ?fpt b" ?nc b T 1 t ?fpt 0 c j] by simp
  show ?thesis
  proof (cases "bPO + snd t < filterPixels a")
    case False
    then have "cells T a 1 ?fpt ?nc b t = {}" using px by (auto simp: cells_def)
    then show ?thesis using False by (simp add: mf_write_def rmw_def)
  next
    case True
    then have g: "g_px T a 1 ?nc b t 0 < filterPixels a" using px by simp
    have val: "target_ref a images hidActs (?cell j c) = prd (c, j)" if "c < ?nc" "j < ?fpt" for c j
      using cell_ref [OF wf b t that g] prd [OF that(1) _ that(2) g] by simp
    have eq: "mf_write T a bPO tOff t prd
        = fold (\<lambda>j. fold (\<lambda>c tg. tg(?cell j c := ?G (?cell j c) (tg (?cell j c)))) [0..<?nc]) [0..<?fpt]"
    proof (cases "scale T")
      case True
      have "mf_write T a bPO tOff t prd
          = fold (\<lambda>f. fold (\<lambda>c tg. tg(?cell f c := scaleTargets a * tg (?cell f c) + scaleOutput a * prd (c, f)))
               [0..<?nc]) [0..<?fpt]"
        using True \<open>bPO + snd t < filterPixels a\<close> by (simp add: mf_write_def cell fun_eq_iff)
      also have "\<dots> = fold (\<lambda>j. fold (\<lambda>c tg. tg(?cell j c := ?G (?cell j c) (tg (?cell j c)))) [0..<?nc]) [0..<?fpt]"
        using val True by (intro fold_cong_set) (simp add: blend_def)
      finally show ?thesis .
    next
      case False
      have "mf_write T a bPO tOff t prd
          = fold (\<lambda>f. fold (\<lambda>c tg. tg(?cell f c := prd (c, f))) [0..<?nc]) [0..<?fpt]"
        using False \<open>bPO + snd t < filterPixels a\<close> by (simp add: mf_write_def cell fun_eq_iff)
      also have "\<dots> = fold (\<lambda>j. fold (\<lambda>c tg. tg(?cell j c := ?G (?cell j c) (tg (?cell j c)))) [0..<?nc]) [0..<?fpt]"
        using val False by (intro fold_cong_set) (simp add: blend_def)
      finally show ?thesis .
    qed
    have "rmw ?G (\<Union>j\<in>set [0..<?fpt]. \<Union>c\<in>set [0..<?nc]. {?cell j c})
            (fold (\<lambda>j. fold (\<lambda>c tg. tg(?cell j c := ?G (?cell j c) (tg (?cell j c)))) [0..<?nc]) [0..<?fpt])"
    proof (rule rmw_fold2)
      fix j c j' c'
      assume "j \<in> set [0..<?fpt]" "c \<in> set [0..<?nc]" "j' \<in> set [0..<?fpt]" "c' \<in> set [0..<?nc]"
        and e: "?cell j c = ?cell j' c'"
      then have r: "c < ?nc" "j < ?fpt" "c' < ?nc" "j' < ?fpt" by simp_all
      from cell_inj [OF wf b t r(1) _ r(2) g r(3) _ r(4) g e] show "j = j' \<and> c = c'" by simp
    qed simp_all
    moreover have "(\<Union>j\<in>set [0..<?fpt]. \<Union>c\<in>set [0..<?nc]. {?cell j c}) = cells T a 1 ?fpt ?nc b t"
      using g unfolding cells_def by (simp add: set_eq_iff Bex_def) metis
    ultimately show ?thesis unfolding eq by simp
  qed
qed

lemma write_pixels_rmw:
  assumes wf: "wf_grid T a (pixelsPerThread T) 1 nc nom grid"
    and b: "b \<in> set (dim3_ids grid)" and t: "t \<in> set (dim3_ids (B_X T, B_Y T))"
    and bPO: "bPO = g_bPO T a (pixelsPerThread T) nc b"
    and tOff: "tOff = target_index a (g_om T a 1 b) (g_col a nc b 0)
                        (g_px T a (pixelsPerThread T) nc b t 0) (g_flt T a 1 b t 0)"
    and prd: "\<And>c p j. c < nc \<Longrightarrow> p < pixelsPerThread T \<Longrightarrow> j < 1 \<Longrightarrow>
               g_px T a (pixelsPerThread T) nc b t p < filterPixels a \<Longrightarrow>
               prd (c, p) = spec_weight_grad a images hidActs (g_om T a 1 b)
                   (g_col a nc b c) (g_px T a (pixelsPerThread T) nc b t p) (g_flt T a 1 b t j)"
  shows "rmw (blend T a images hidActs) (cells T a (pixelsPerThread T) 1 nc b t)
           (write_pixels T a nc bPO tOff t prd)"
proof -
  let ?ppt = "pixelsPerThread T"
  let ?G = "blend T a images hidActs"
  let ?cell = "\<lambda>p c. target_index a (g_om T a 1 b) (g_col a nc b c) (g_px T a ?ppt nc b t p) (g_flt T a 1 b t 0)"
  let ?grd = "\<lambda>p. g_px T a ?ppt nc b t p < filterPixels a"
  have px: "g_px T a ?ppt nc b t p = bPO + p * B_Y T + snd t" for p by (simp add: g_px_def bPO g_bPO_def)
  have cell: "tOff + (p * B_Y T * numFilters a + c * filterPixels a * numFilters a) = ?cell p c" for c p
    unfolding tOff using target_index_shift [of a "g_om T a 1 b" nc b T ?ppt t 1 p c 0] by simp
  have val: "target_ref a images hidActs (?cell p c) = prd (c, p)" if "c < nc" "p < ?ppt" "?grd p" for c p
    using cell_ref [OF wf b t that(1) _ that(3), of 0] prd [OF that(1,2) _ that(3), of 0] by simp
  have eq: "write_pixels T a nc bPO tOff t prd
        = fold (\<lambda>p. fold (\<lambda>c tg. tg(?cell p c := ?G (?cell p c) (tg (?cell p c)))) [0..<nc])
            (filter ?grd [0..<?ppt])"
  proof (cases "scale T")
    case True
    have "write_pixels T a nc bPO tOff t prd
        = fold (\<lambda>p tg. if ?grd p then
                 fold (\<lambda>c tg. tg(?cell p c := scaleTargets a * tg (?cell p c) + scaleOutput a * prd (c, p))) [0..<nc] tg
               else tg) [0..<?ppt]"
      using True by (simp add: write_pixels_def cell px fun_eq_iff cong: if_cong)
    also have "\<dots> = fold (\<lambda>p. fold (\<lambda>c tg. tg(?cell p c := scaleTargets a * tg (?cell p c) + scaleOutput a * prd (c, p))) [0..<nc])
                   (filter ?grd [0..<?ppt])"
      by (rule fold_filter)
    also have "\<dots> = fold (\<lambda>p. fold (\<lambda>c tg. tg(?cell p c := ?G (?cell p c) (tg (?cell p c)))) [0..<nc])
            (filter ?grd [0..<?ppt])"
      using val True by (intro fold_cong_set) (simp add: blend_def)
    finally show ?thesis .
  next
    case False
    have "write_pixels T a nc bPO tOff t prd
        = fold (\<lambda>p tg. if ?grd p then
                 fold (\<lambda>c tg. tg(?cell p c := prd (c, p))) [0..<nc] tg
               else tg) [0..<?ppt]"
      using False by (simp add: write_pixels_def cell px fun_eq_iff cong: if_cong)
    also have "\<dots> = fold (\<lambda>p. fold (\<lambda>c tg. tg(?cell p c := prd (c, p))) [0..<nc])
                   (filter ?grd [0..<?ppt])"
      by (rule fold_filter)
    also have "\<dots> = fold (\<lambda>p. fold (\<lambda>c tg. tg(?cell p c := ?G (?cell p c) (tg (?cell p c)))) [0..<nc])
            (filter ?grd [0..<?ppt])"
      using val False by (intro fold_cong_set) (simp add: blend_def)
    finally show ?thesis .
  qed
  have "rmw ?G (\<Union>p\<in>set (filter ?grd [0..<?ppt]). \<Union>c\<in>set [0..<nc]. {?cell p c})
            (fold (\<lambda>p. fold (\<lambda>c tg. tg(?cell p c := ?G (?cell p c) (tg (?cell p c)))) [0..<nc])
               (filter ?grd [0..<?ppt]))"
  proof (rule rmw_fold2)
    fix p c p' c'
    assume "p \<in> set (filter ?grd [0..<?ppt])" "c \<in> set [0..<nc]"
      "p' \<in> set (filter ?grd [0..<?ppt])" "c' \<in> set [0..<nc]"
      and e: "?cell p c = ?cell p' c'"
    then have r: "c < nc" "p < ?ppt" "?grd p" "c' < nc" "p' < ?ppt" "?grd p'" by simp_all
    from cell_inj [OF wf b t r(1,2) _ r(3) r(4,5) _ r(6) e] show "p = p' \<and> c = c'" by simp
  qed simp_all
  moreover have "(\<Union>p\<in>set (filter ?grd [0..<?ppt]). \<Union>c\<in>set [0..<nc]. {?cell p c}) = cells T a ?ppt 1 nc b t"
    unfolding cells_def by (simp add: set_eq_iff Bex_def) metis
  ultimately show ?thesis unfolding eq by simp
qed

lemma manyfilter_run_correct:
  assumes wfg: "wf_grid T a 1 (filtersPerThread T) (colorsPerThread T) nom grid"
    and wfl: "wf_launch T a 1 (filtersPerThread T)"
  shows "weight_acts_kernel2_manycolor_manyfilter_run T a grid (B_X T, B_Y T) images hidActs junk targets
         = (\<lambda>x. if x < nom * numFilterColors a * filterPixels a * numFilters a
                 then blend T a images hidActs x (targets x) else targets x)"
proof -
  let ?fpt = "filtersPerThread T" and ?nc = "colorsPerThread T"
  have e1: "mf_moduleIdx T a b = modulesPerBlock a * g_om T a ?fpt b" for b
    by (simp add: mf_moduleIdx_def mf_outputModuleIdx_def numFilterBlocks_def g_om_def)
  have e2: "mf_blockPixelOffset T a b = g_bPO T a 1 ?nc b" for b
    by (simp add: mf_blockPixelOffset_def g_bPO_def)
  have e3: "mf_blockFilterIdx T a b = g_bF T a ?fpt b" for b
    by (simp add: mf_blockFilterIdx_def g_bF_def numFilterBlocks_def mult.commute)
  have e4: "B_Y T = B_Y T * 1" by simp
  have run: "weight_acts_kernel2_manycolor_manyfilter_run T a grid (B_X T, B_Y T) images hidActs junk targets
     = fold (\<lambda>b. run_block (dim3_ids (B_X T, B_Y T))
                  [modulesPerBlock a * g_om T a ?fpt b ..< modulesPerBlock a * g_om T a ?fpt b + modulesPerBlock a]
                  (for_range (numImages a) (preloadCases T))
                  (load_images T a images (B_Y T * 1) ?nc (g_bPO T a 1 ?nc b) (mf_pxc T a b) (mf_imagesOff T a b))
                  (\<lambda>t m. load_hidActs T a hidActs (B_X T * ?fpt)
                            (hidActsOff T a (g_bF T a ?fpt b) (modulesPerBlock a * g_om T a ?fpt b) t m) t)
                  (mf_accumulate T)
                  (\<lambda>t. mf_write T a (mf_blockPixelOffset T a b) (mf_targetsOff T a b t) t)
                  (junk b))
           (dim3_ids grid) targets"
    unfolding weight_acts_kernel2_manycolor_manyfilter_run_def e1 e3 e2 [symmetric] by simp
  show ?thesis unfolding run
  proof (rule kernel_generic [where key = "\<lambda>c p j. (c, j)" and nom = nom, OF wfg])
    show "wf_block T" "loadStep T dvd B_Y T * 1" "loadStep T dvd B_X T * ?fpt" "0 < numModulesX a"
      "checkCaseBounds T \<or> preloadCases T dvd numImages a" "B_X T * ?fpt dvd numFiltersPerGroup a"
      using wfl by (simp_all add: wf_launch_def)
  next
    fix b q
    show "mf_pxc T a b q = ((g_bPO T a 1 ?nc b + q) div filterSize a, (g_bPO T a 1 ?nc b + q) mod filterSize a)"
      by (simp add: mf_pxc_def e2)
  next
    fix b
    show "mf_imagesOff T a b = (g_bF T a ?fpt b div numFiltersPerGroup a * numFilterColors a + g_col a ?nc b 0)
                 * imgPixels a * imgStride a"
      by (simp add: mf_imagesOff_def imgColorIdx_def filterColorIdx_def blockGroupIdx_def e3 g_col_def)
  next
    fix t :: "nat \<times> nat" and c p j :: nat and shI shH :: shmem and prd :: regs
    assume "c < ?nc" "p < 1" "j < ?fpt"
    then show "mf_accumulate T t shI shH prd (c, j) = prd (c, j) + (\<Sum>i<preloadCases T.
                     shI ((snd t + p * B_Y T + c * (B_Y T * 1)) * preloadCases T + i)
                     * shH ((fst t + j * B_X T) * (preloadCases T + 1) + i))"
      by (simp add: mf_accumulate_regs)
  next
    fix b t prd
    assume b: "b \<in> set (dim3_ids grid)" and t: "t \<in> set (dim3_ids (B_X T, B_Y T))"
      and prd: "\<And>c p j. c < ?nc \<Longrightarrow> p < 1 \<Longrightarrow> j < ?fpt \<Longrightarrow> g_px T a 1 ?nc b t p < filterPixels a \<Longrightarrow>
                  prd (c, j) = spec_weight_grad a images hidActs (g_om T a ?fpt b) (g_col a ?nc b c)
                                      (g_px T a 1 ?nc b t p) (g_flt T a ?fpt b t j)"
    have tOff: "mf_targetsOff T a b t = target_index a (g_om T a ?fpt b) (g_col a ?nc b 0)
                        (g_px T a 1 ?nc b t 0) (g_flt T a ?fpt b t 0)"
      by (simp add: mf_targetsOff_def target_index_def mf_outputModuleIdx_def numFilterBlocks_def
            filterColorIdx_def mf_blockPixelOffset_def mf_blockFilterIdx_def
            g_om_def g_col_def g_px_def g_flt_def algebra_simps)
    show "rmw (blend T a images hidActs) (cells T a 1 ?fpt ?nc b t)
            (mf_write T a (mf_blockPixelOffset T a b) (mf_targetsOff T a b t) t prd)"
      by (rule mf_write_rmw [OF wfg b t e2 tOff prd])
  qed
qed

lemma LO16_HI16:
  assumes "d < 65536"
  shows "LO16 (d + push_bit 16 m) = d" "HI16 (d + push_bit 16 m) = m"
proof -
  have k: "(65535::nat) = mask 16" by (simp add: mask_eq_exp_minus_1)
  have "LO16 (d + push_bit 16 m) = take_bit 16 (d + push_bit 16 m)"
    unfolding LO16_def k by (simp add: take_bit_eq_mask)
  also have "\<dots> = (d + m * 2 ^ 16) mod 2 ^ 16" by (simp add: take_bit_eq_mod push_bit_eq_mult)
  also have "\<dots> = d" using assms by simp
  finally show "LO16 (d + push_bit 16 m) = d" .
  have "HI16 (d + push_bit 16 m) = (d + m * 2 ^ 16) div 2 ^ 16"
    by (simp add: HI16_def drop_bit_eq_div push_bit_eq_mult)
  also have "\<dots> = m" using assms by simp
  finally show "HI16 (d + push_bit 16 m) = m" .
qed

lemma div_less_of_square:
  assumes "x < fs * (fs::nat)"
  shows "x div fs < fs"
  using assms by (simp add: less_mult_imp_div_less)

lemma manycolor_run_correct:
  assumes wfg: "wf_grid T a (pixelsPerThread T) 1 (colorsPerThread T) nom grid"
    and wfl: "wf_launch T a (pixelsPerThread T) 1"
    and fs: "filterSize a \<le> 32768"
  shows "weight_acts_kernel2_manycolor_run T a grid (B_X T, B_Y T) images hidActs junk targets
         = (\<lambda>x. if x < nom * numFilterColors a * filterPixels a * numFilters a
                 then blend T a images hidActs x (targets x) else targets x)"
proof -
  let ?ppt = "pixelsPerThread T" and ?nc = "colorsPerThread T"
  have e1: "moduleIdx T a b = modulesPerBlock a * g_om T a 1 b" for b
    by (simp add: moduleIdx_def outputModuleIdx_def blocksPerModule_def g_om_def)
  have e2: "mc_blockPixelOffset T a b = g_bPO T a ?ppt ?nc b" for b
    by (simp add: mc_blockPixelOffset_def g_bPO_def mult.assoc)
  have e3: "blockFilterIdx T a b = g_bF T a 1 b" for b
    by (simp add: blockFilterIdx_def g_bF_def blocksPerModule_def mult.commute)
  have run: "weight_acts_kernel2_manycolor_run T a grid (B_X T, B_Y T) images hidActs junk targets
     = fold (\<lambda>b. run_block (dim3_ids (B_X T, B_Y T))
                  [modulesPerBlock a * g_om T a 1 b ..< modulesPerBlock a * g_om T a 1 b + modulesPerBlock a]
                  (for_range (numImages a) (preloadCases T))
                  (load_images T a images (B_Y T * ?ppt) ?nc (g_bPO T a ?ppt ?nc b) (mc_pxc T a b) (mc_imagesOff T a b))
                  (\<lambda>t m. load_hidActs T a hidActs (B_X T * 1)
                            (hidActsOff T a (g_bF T a 1 b) (modulesPerBlock a * g_om T a 1 b) t m) t)
                  (mc_accumulate T)
                  (\<lambda>t. write_pixels T a ?nc (mc_blockPixelOffset T a b) (mc_targetsOff T a b t) t)
                  (junk b))
           (dim3_ids grid) targets"
    unfolding weight_acts_kernel2_manycolor_run_def e1 e3 e2 [symmetric] by simp
  show ?thesis unfolding run
  proof (rule kernel_generic [where key = "\<lambda>c p j. (c, p)" and nom = nom, OF wfg])
    show "wf_block T" "loadStep T dvd B_Y T * ?ppt" "loadStep T dvd B_X T * 1" "0 < numModulesX a"
      "checkCaseBounds T \<or> preloadCases T dvd numImages a" "B_X T * 1 dvd numFiltersPerGroup a"
      using wfl by (simp_all add: wf_launch_def)
  next
    fix b q
    assume "q + g_bPO T a ?ppt ?nc b < filterPixels a"
    then have "(g_bPO T a ?ppt ?nc b + q) div filterSize a < filterSize a"
      by (intro div_less_of_square) (simp add: filterPixels_def add.commute)
    then have "(g_bPO T a ?ppt ?nc b + q) div filterSize a < 65536" using fs by simp
    from LO16_HI16 [OF this]
    show "mc_pxc T a b q = ((g_bPO T a ?ppt ?nc b + q) div filterSize a, (g_bPO T a ?ppt ?nc b + q) mod filterSize a)"
      by (simp add: mc_pxc_def mc_pxDivs_def e2)
  next
    fix b
    show "mc_imagesOff T a b = (g_bF T a 1 b div numFiltersPerGroup a * numFilterColors a + g_col a ?nc b 0)
                 * imgPixels a * imgStride a"
      by (simp add: mc_imagesOff_def mc_groupColorIdx_def blockColorIdx_def blockGroupIdx_def e3 g_col_def)
  next
    fix t :: "nat \<times> nat" and c p j :: nat and shI shH :: shmem and prd :: regs
    assume "c < ?nc" "p < ?ppt" "j < 1"
    then show "mc_accumulate T t shI shH prd (c, p) = prd (c, p) + (\<Sum>i<preloadCases T.
                     shI ((snd t + p * B_Y T + c * (B_Y T * ?ppt)) * preloadCases T + i)
                     * shH ((fst t + j * B_X T) * (preloadCases T + 1) + i))"
      by (simp add: mc_accumulate_regs mult.commute mult.left_commute)
  next
    fix b t prd
    assume b: "b \<in> set (dim3_ids grid)" and t: "t \<in> set (dim3_ids (B_X T, B_Y T))"
      and prd: "\<And>c p j. c < ?nc \<Longrightarrow> p < ?ppt \<Longrightarrow> j < 1 \<Longrightarrow> g_px T a ?ppt ?nc b t p < filterPixels a \<Longrightarrow>
                  prd (c, p) = spec_weight_grad a images hidActs (g_om T a 1 b) (g_col a ?nc b c)
                                      (g_px T a ?ppt ?nc b t p) (g_flt T a 1 b t j)"
    have tOff: "mc_targetsOff T a b t = target_index a (g_om T a 1 b) (g_col a ?nc b 0)
                        (g_px T a ?ppt ?nc b t 0) (g_flt T a 1 b t 0)"
      by (simp add: mc_targetsOff_def target_index_def outputModuleIdx_def blocksPerModule_def
            blockColorIdx_def mc_blockPixelOffset_def blockFilterIdx_def
            g_om_def g_col_def g_px_def g_flt_def algebra_simps)
    show "rmw (blend T a images hidActs) (cells T a ?ppt 1 ?nc b t)
            (write_pixels T a ?nc (mc_blockPixelOffset T a b) (mc_targetsOff T a b t) t prd)"
      by (rule write_pixels_rmw [OF wfg b t e2 tOff prd])
  qed
qed

text \<open>
  \<^verbatim>\<open>weight_acts_kernel2_color\<close> has no colour blocks and no groups: it is launched with
  \<open>numGroups = 1\<close> and as many colours as the template has.
\<close>

lemma color_run_correct:
  assumes wfg: "wf_grid T a (pixelsPerThread T) 1 (numColors T) nom grid"
    and wfl: "wf_launch T a (pixelsPerThread T) 1"
    and nc: "numFilterColors a = numColors T" and ng: "numGroups a = 1"
  shows "weight_acts_kernel2_color_run T a grid (B_X T, B_Y T) images hidActs junk targets
         = (\<lambda>x. if x < nom * numFilterColors a * filterPixels a * numFilters a
                 then blend T a images hidActs x (targets x) else targets x)"
proof -
  let ?ppt = "pixelsPerThread T" and ?nc = "numColors T"
  have ncp: "0 < ?nc" using wfg by (simp add: wf_grid_def)
  have one: "numFilterColors a div ?nc = 1" using nc ncp by simp
  have one': "?nc div ?nc = 1" using ncp by simp
  have e1: "moduleIdx T a b = modulesPerBlock a * g_om T a 1 b" for b
    by (simp add: moduleIdx_def outputModuleIdx_def blocksPerModule_def g_om_def)
  have e2: "c_blockPixelOffset T b = g_bPO T a ?ppt ?nc b" for b
    by (simp add: c_blockPixelOffset_def g_bPO_def one mult.assoc)
  have e3: "blockFilterIdx T a b = g_bF T a 1 b" for b
    by (simp add: blockFilterIdx_def g_bF_def blocksPerModule_def mult.commute)
  have run: "weight_acts_kernel2_color_run T a grid (B_X T, B_Y T) images hidActs junk targets
     = fold (\<lambda>b. run_block (dim3_ids (B_X T, B_Y T))
                  [modulesPerBlock a * g_om T a 1 b ..< modulesPerBlock a * g_om T a 1 b + modulesPerBlock a]
                  (for_range (numImages a) (preloadCases T))
                  (load_images T a images (B_Y T * ?ppt) ?nc (g_bPO T a ?ppt ?nc b) (c_pxc T a b) 0)
                  (\<lambda>t m. load_hidActs T a hidActs (B_X T * 1)
                            (hidActsOff T a (g_bF T a 1 b) (modulesPerBlock a * g_om T a 1 b) t m) t)
                  (c_accumulate T)
                  (\<lambda>t. write_pixels T a ?nc (c_blockPixelOffset T b) (c_targetsOff T a b t) t)
                  (junk b))
           (dim3_ids grid) targets"
    unfolding weight_acts_kernel2_color_run_def e1 e3 e2 [symmetric] by simp
  show ?thesis unfolding run
  proof (rule kernel_generic [where key = "\<lambda>c p j. (c, p)" and nom = nom and off = "\<lambda>b. 0", OF wfg])
    show "wf_block T" "loadStep T dvd B_Y T * ?ppt" "loadStep T dvd B_X T * 1" "0 < numModulesX a"
      "checkCaseBounds T \<or> preloadCases T dvd numImages a" "B_X T * 1 dvd numFiltersPerGroup a"
      using wfl by (simp_all add: wf_launch_def)
  next
    fix b q
    show "c_pxc T a b q = ((g_bPO T a ?ppt ?nc b + q) div filterSize a, (g_bPO T a ?ppt ?nc b + q) mod filterSize a)"
      by (simp add: c_pxc_def e2)
  next
    fix b assume b: "b \<in> set (dim3_ids grid)"
    have dF: "B_X T * 1 dvd numFilters a" using wfg by (simp add: wf_grid_def)
    have "g_bF T a 1 b < numFilters a"
    proof -
      have "0 < numFilters a div (B_X T * 1)" using grid_pos(1) [OF wfg b] by (cases "numFilters a div (B_X T * 1) = 0") auto
      then have "g_bF T a 1 b < (numFilters a div (B_X T * 1)) * (B_X T * 1)"
        using wfg unfolding g_bF_def wf_grid_def by (intro mult_strict_right_mono) simp_all
      then show ?thesis using dF by simp
    qed
    then have "g_bF T a 1 b div numFiltersPerGroup a = 0"
      by (simp add: numFiltersPerGroup_def ng)
    then show "0 = (g_bF T a 1 b div numFiltersPerGroup a * numFilterColors a + g_col a ?nc b 0)
                 * imgPixels a * imgStride a"
      by (simp add: g_col_def one)
  next
    fix t :: "nat \<times> nat" and c p j :: nat and shI shH :: shmem and prd :: regs
    assume "c < ?nc" "p < ?ppt" "j < 1"
    then show "c_accumulate T t shI shH prd (c, p) = prd (c, p) + (\<Sum>i<preloadCases T.
                     shI ((snd t + p * B_Y T + c * (B_Y T * ?ppt)) * preloadCases T + i)
                     * shH ((fst t + j * B_X T) * (preloadCases T + 1) + i))"
      by (simp add: c_accumulate_regs mult.commute mult.left_commute)
  next
    fix b t prd
    assume b: "b \<in> set (dim3_ids grid)" and t: "t \<in> set (dim3_ids (B_X T, B_Y T))"
      and prd: "\<And>c p j. c < ?nc \<Longrightarrow> p < ?ppt \<Longrightarrow> j < 1 \<Longrightarrow> g_px T a ?ppt ?nc b t p < filterPixels a \<Longrightarrow>
                  prd (c, p) = spec_weight_grad a images hidActs (g_om T a 1 b) (g_col a ?nc b c)
                                      (g_px T a ?ppt ?nc b t p) (g_flt T a 1 b t j)"
    have tOff: "c_targetsOff T a b t = target_index a (g_om T a 1 b) (g_col a ?nc b 0)
                        (g_px T a ?ppt ?nc b t 0) (g_flt T a 1 b t 0)"
      by (simp add: c_targetsOff_def target_index_def outputModuleIdx_def blocksPerModule_def
            c_blockPixelOffset_def blockFilterIdx_def one' nc
            g_om_def g_col_def g_px_def g_flt_def algebra_simps)
    show "rmw (blend T a images hidActs) (cells T a ?ppt 1 ?nc b t)
            (write_pixels T a ?nc (c_blockPixelOffset T b) (c_targetsOff T a b t) t prd)"
      by (rule write_pixels_rmw [OF wfg b t e2 tOff prd])
  qed
qed

lemma select_kernel_cases:
  assumes "select_kernel nfc nfpg nf cb dns = Some (k, T)"
  shows "preloadCases T = 32 \<and> checkCaseBounds T = cb \<and> scale T = (\<not> dns) \<and>
    (if nfc > 3 then
       (if nfpg smod 32 = 0
        then k = weight_acts_kernel2_manycolor_manyfilter \<and> filtersPerThread T = 2
             \<and> colorsPerThread T = (if nfc smod 8 = 0 then 8 else 4)
             \<and> B_Y T = (if nfpg smod 64 = 0 then 4 else 8)
             \<and> B_X T = (if nfpg smod 64 = 0 then 32 else 16)
        else k = weight_acts_kernel2_manycolor \<and> pixelsPerThread T = 2
             \<and> colorsPerThread T = (if nfc smod 8 = 0 then 8 else 4)
             \<and> B_Y T = 8 \<and> B_X T = 16)
     else k = weight_acts_kernel2_color \<and> numColors T = nat nfc
          \<and> pixelsPerThread T = (if nf smod 32 = 0 then (if nfc = 1 then 8 else 5)
                                  else (if nfc = 1 then 5 else 2))
          \<and> B_Y T = (if nf smod 32 = 0 then 4 else 8)
          \<and> B_X T = (if nf smod 32 = 0 then 32 else 16))"
  using assms unfolding select_kernel_def
  by (simp add: color_tmpl_def manycolor_tmpl_def manyfilter_tmpl_def split: if_splits) auto

lemma launch_Some_inv:
  assumes "convWeightActs_launch I H T nmx fs ps ms nic ng sT sO mS0 = Inr (T', Some L)"
  shows "l_args L = host_args I H nmx fs ps ms nic ng sT sO mS0
     \<and> T' = (if sT = 0 \<and> sO = 1
              then resize T (nat (((nmx * nmx) sdiv (if mS0 = 0 then nmx * nmx else mS0)) * (nic sdiv ng) * (fs * fs)))
                            (nat (host_numFilters H nmx))
              else T)
     \<and> select_kernel (nic sdiv ng) (host_numFilters H nmx sdiv ng) (host_numFilters H nmx)
           (int (getNumCols I) smod 32 \<noteq> 0) (sT = 0 \<and> sO = 1) = Some (l_kernel L, l_tmpl L)
     \<and> (case launch_geometry (nic sdiv ng) (host_numFilters H nmx sdiv ng) (host_numFilters H nmx)
                nic (nmx * nmx) (if mS0 = 0 then nmx * nmx else mS0) (fs * fs) of
           (bx, by, blocks) \<Rightarrow> l_blocks L = (nat (fst blocks), nat (snd blocks))
                                \<and> l_threads L = (nat bx, nat by))"
proof -
  let ?nf = "int (getNumRows H) sdiv (nmx * nmx)"
  let ?mS = "if mS0 = 0 then nmx * nmx else mS0"
  let ?dns = "sT = 0 \<and> sO = 1"
  let ?T' = "if ?dns then resize T (nat (((nmx * nmx) sdiv ?mS) * (nic sdiv ng) * (fs * fs))) (nat ?nf) else T"
  have ch: "convWeightActs_checks I H T nmx fs ps ms nic ng sT sO mS0"
    using assms by (rule launch_Inr_checks)
  obtain bx by' bl where g: "launch_geometry (nic sdiv ng) (?nf sdiv ng) ?nf nic (nmx * nmx) ?mS (fs * fs)
       = (bx, by', bl)"
    using prod_cases3 by blast
  have b: "by' * bx = 128"
    using geometry_block [of "nic sdiv ng" "?nf sdiv ng" ?nf nic "nmx * nmx" ?mS "fs * fs"]
    unfolding g by simp
  have b': "(by' * bx) smod 32 = 0" unfolding b by (simp add: signed_modulo_int_def)
  have eq: "convWeightActs_launch I H T nmx fs ps ms nic ng sT sO mS0 =
      (case select_kernel (nic sdiv ng) (?nf sdiv ng) ?nf (int (getNumCols I) smod 32 \<noteq> 0) ?dns of
         None \<Rightarrow> Inr (?T', None)
       | Some (k, t) \<Rightarrow> Inr (?T', Some \<lparr>l_kernel = k, l_tmpl = t, l_blocks = (nat (fst bl), nat (snd bl)),
                   l_threads = (nat bx, nat by'), l_args = host_args I H nmx fs ps ms nic ng sT sO mS0\<rparr>))"
    using ch unfolding convWeightActs_launch_def convWeightActs_checks_def c_assert_def Let_def g
      host_args_def host_numFilters_def
    by (cases ?dns; cases "mS0 = 0") (simp_all add: b' cong: option.case_cong)
  show ?thesis
    using assms unfolding eq host_numFilters_def g
    by (auto split: option.splits)
qed

lemma run_launch_reference:
  assumes "variant_ok L nom"
  shows "run_launch L images hidActs junk targets = reference_result (l_args L) nom images hidActs targets"
proof -
  let ?T = "l_tmpl L" and ?a = "l_args L"
  have th: "l_threads L = (B_X ?T, B_Y ?T)"
    and sc: "scale ?T \<or> (scaleTargets ?a = 0 \<and> scaleOutput ?a = 1)"
    using assms by (simp_all add: variant_ok_def Let_def)
  have bl: "blend ?T ?a images hidActs x old = scaleTargets ?a * old + scaleOutput ?a * target_ref ?a images hidActs x"
    for x old using sc by (auto simp: blend_def)
  show ?thesis
  proof (cases "l_kernel L")
    case weight_acts_kernel2_color
    then have "wf_grid ?T ?a (pixelsPerThread ?T) 1 (numColors ?T) nom (l_blocks L)"
      "wf_launch ?T ?a (pixelsPerThread ?T) 1" "numFilterColors ?a = numColors ?T" "numGroups ?a = 1"
      using assms by (simp_all add: variant_ok_def Let_def)
    from color_run_correct [OF this] show ?thesis
      by (simp add: run_launch_def weight_acts_kernel2_color th reference_result_def bl cong: if_cong)
  next
    case weight_acts_kernel2_manycolor
    then have "wf_grid ?T ?a (pixelsPerThread ?T) 1 (colorsPerThread ?T) nom (l_blocks L)"
      "wf_launch ?T ?a (pixelsPerThread ?T) 1" "filterSize ?a \<le> 32768"
      using assms by (simp_all add: variant_ok_def Let_def)
    from manycolor_run_correct [OF this] show ?thesis
      by (simp add: run_launch_def weight_acts_kernel2_manycolor th reference_result_def bl cong: if_cong)
  next
    case weight_acts_kernel2_manycolor_manyfilter
    then have "wf_grid ?T ?a 1 (filtersPerThread ?T) (colorsPerThread ?T) nom (l_blocks L)"
      "wf_launch ?T ?a 1 (filtersPerThread ?T)"
      using assms by (simp_all add: variant_ok_def Let_def)
    from manyfilter_run_correct [OF this] show ?thesis
      by (simp add: run_launch_def weight_acts_kernel2_manycolor_manyfilter th reference_result_def bl cong: if_cong)
  qed
qed

lemma dvd_of_group:
  fixes NF NG q :: nat
  assumes "NG dvd NF" "q dvd NF div NG"
  shows "q dvd NF"
  using assms by (metis dvd_div_mult_self dvd_mult2)

lemma sdiv_int: "int a sdiv int b = int (a div b)"
  by (simp add: zdiv_int)

lemma smod_int: "int a smod int b = int (a mod b)"
  by (simp add: zmod_int)

lemma smod_int_numeral: "int a smod numeral k = int (a mod numeral k)"
  using smod_int [of a "numeral k"] by simp

lemma sdiv_int_numeral: "int a sdiv numeral k = int (a div numeral k)"
  using sdiv_int [of a "numeral k"] by simp

lemma smod_int_16: "int a smod (16 * int b) = int (a mod (16 * b))"
  using smod_int [of a "16 * b"] by simp

lemma nat_int_mult: "nat (int a * int b) = a * b"
  by (simp flip: of_nat_mult)

lemmas int_nat_simps = sdiv_int smod_int smod_int_numeral sdiv_int_numeral smod_int_16

lemma host_variant_ok:
  assumes ok: "convWeightActs_launch I H T nmx fs ps ms nic ng sT sO mS0 = Inr (T', Some L)"
    and nmx: "0 < nmx" and ng: "0 < ng" and fs0: "0 \<le> fs" and fs: "fs \<le> 32768" and mS: "0 \<le> mS0"
  shows "variant_ok L (nat ((nmx * nmx) div (if mS0 = 0 then nmx * nmx else mS0)))"
proof -
  let ?nf = "host_numFilters H nmx"
  let ?mS = "if mS0 = 0 then nmx * nmx else mS0"
  let ?a = "host_args I H nmx fs ps ms nic ng sT sO mS0"
  let ?nom = "nat ((nmx * nmx) div ?mS)"
  let ?K = "l_tmpl L"
  note inv = launch_Some_inv [OF ok]
  have ch: "convWeightActs_checks I H T nmx fs ps ms nic ng sT sO mS0"
    using ok by (rule launch_Inr_checks)
  have m1: "0 < nmx * nmx" using nmx by simp
  have nfd: "?nf = int (getNumRows H) div (nmx * nmx)"
    using m1 by (simp add: host_numFilters_def)
  have nf0: "0 \<le> ?nf" unfolding nfd using m1 by (simp add: pos_imp_zdiv_nonneg_iff)
  have mS1: "0 < ?mS" using mS m1 by auto
  obtain NF where NF: "?nf = int NF" using nf0 by (metis nat_0_le)
  obtain NG where NG: "ng = int NG" and NG0: "0 < NG" using ng by (metis nat_0_le less_imp_le zero_less_nat_eq nat_int)
  obtain FS where FS: "fs = int FS" using fs0 by (metis nat_0_le)
  obtain MS where MS: "?mS = int MS" and MS0: "0 < MS" using mS1 by (metis nat_0_le less_imp_le zero_less_nat_eq nat_int)
  obtain NM where NM: "nmx * nmx = int NM" using m1 by (metis nat_0_le less_imp_le)
  have chk: "nic \<noteq> 0" "nic smod ng = 0" "?nf smod (16 * ng) = 0"
    "ng > 1 \<or> (nic > 0 \<and> (nic \<le> 3 \<or> nic smod 4 = 0))"
    "ng = 1 \<or> (nic sdiv ng) smod 4 = 0" "nic sdiv ng > 3 \<or> ng = 1"
    using ch unfolding convWeightActs_checks_def Let_def host_numFilters_def by simp_all
  have nic0: "0 < nic"
  proof (cases "ng = 1")
    case True then show ?thesis using chk(4) by simp
  next
    case False
    then have "3 < nic sdiv ng" using chk(6) by simp
    moreover have "nic sdiv ng \<le> 0" if "nic \<le> 0"
    proof -
      have "0 \<le> (- nic) div ng" using that ng by (simp add: pos_imp_zdiv_nonneg_iff)
      then show ?thesis using that ng by (simp add: signed_divide_int_def sgn_if)
    qed
    ultimately show ?thesis by (cases "0 < nic") auto
  qed
  obtain NIC where NIC: "nic = int NIC" and NIC0: "0 < NIC"
    using nic0 by (metis nat_0_le less_imp_le zero_less_nat_eq nat_int)
  define NFC where "NFC = NIC div NG"
  define NFPG where "NFPG = NF div NG"
  have nfc: "nic sdiv ng = int NFC" by (simp add: NIC NG NFC_def zdiv_int)
  have nfpg: "?nf sdiv ng = int NFPG" by (simp add: NF NG NFPG_def zdiv_int)
  have d1: "NG dvd NIC" using chk(2) unfolding NIC NG smod_int by (simp add: dvd_eq_mod_eq_0)
  have d2: "16 * NG dvd NF" using chk(3) unfolding NF NG smod_int_16 by (simp add: dvd_eq_mod_eq_0)
  have d3: "NG dvd NF" using d2 by (rule dvd_mult_right)
  have d4: "16 dvd NFPG" unfolding NFPG_def using d2 NG0
    by (metis d3 dvd_div_iff_mult mult.commute less_numeral_extra(3))
  have col: "NFC > 3 \<Longrightarrow> 4 dvd NFC"
  proof -
    assume c: "NFC > 3"
    show ?thesis
    proof (cases "ng = 1")
      case True
      then have "NG = 1" using NG by simp
      then have "NFC = NIC" by (simp add: NFC_def)
      then show ?thesis using chk(4) True c unfolding NIC smod_int_numeral
        by (simp add: dvd_eq_mod_eq_0)
    next
      case False
      then show ?thesis using chk(5) unfolding nfc smod_int_numeral
        by (simp add: dvd_eq_mod_eq_0)
    qed
  qed
  have one: "NFC \<le> 3 \<Longrightarrow> NG = 1 \<and> NFC = NIC \<and> 0 < NFC"
  proof -
    assume "NFC \<le> 3"
    then have "ng = 1" using chk(6) unfolding nfc by simp
    then have "NG = 1" using NG by simp
    then show ?thesis using NIC0 by (simp add: NFC_def)
  qed
  obtain bx by' bl where g: "launch_geometry (int NFC) (int NFPG) (int NF) (int NIC) (int NM) (int MS) (int FS * int FS)
       = (bx, by', bl)"
    using prod_cases3 by blast
  have lb: "l_blocks L = (nat (fst bl), nat (snd bl))" and lt: "l_threads L = (nat bx, nat by')"
    using inv unfolding nfc nfpg MS unfolding NF NM NIC FS unfolding g by simp_all
  have sel: "select_kernel (int NFC) (int NFPG) (int NF) (int (getNumCols I) smod 32 \<noteq> 0) (sT = 0 \<and> sO = 1)
       = Some (l_kernel L, l_tmpl L)"
    using inv unfolding nfc nfpg unfolding NF by simp
  note tc = select_kernel_cases [OF sel]
  have la: "l_args L = ?a" using inv by simp
  have a1: "numFilters ?a = NF" "numGroups ?a = NG" "numImgColors ?a = NIC" "filterSize ?a = FS"
    "numModulesX ?a = nmx" "modulesPerBlock ?a = MS" "numImages ?a = getNumCols I"
    "scaleTargets ?a = sT" "scaleOutput ?a = sO"
    using NF NG NIC FS MS by (simp_all add: host_args_def)
  have a2: "numFiltersPerGroup ?a = NFPG" "numFilterColors ?a = NFC" "filterPixels ?a = FS * FS"
    by (simp_all add: numFiltersPerGroup_def numFilterColors_def filterPixels_def a1 NFPG_def NFC_def)
  have nom: "?nom = NM div MS" unfolding MS unfolding NM by (simp flip: zdiv_int)
  have cb: "checkCaseBounds ?K \<or> 32 dvd getNumCols I"
    using tc unfolding smod_int_numeral by (auto simp: dvd_eq_mod_eq_0)
  have sc: "scale ?K \<or> (sT = 0 \<and> sO = 1)" using tc by auto
  have pc: "preloadCases ?K = 32" using tc by simp
  have FSb: "FS \<le> 32768" using fs FS by simp
  show ?thesis
  proof (cases "3 < NFC")
    case True
    note big = this
    have c4: "4 dvd NFC" using col True by simp
    show ?thesis
    proof (cases "NFPG mod 32 = 0")
      case True
      have k: "l_kernel L = weight_acts_kernel2_manycolor_manyfilter" "filtersPerThread ?K = 2"
        "colorsPerThread ?K = (if NFC mod 8 = 0 then 8 else 4)"
        "B_Y ?K = (if NFPG mod 64 = 0 then 4 else 8)" "B_X ?K = (if NFPG mod 64 = 0 then 32 else 16)"
        using tc big True unfolding smod_int_numeral by simp_all
      have gg: "bx = int (B_X ?K)" "by' = int (B_Y ?K)"
        "bl = (int ((NM div MS) * (NF div (B_X ?K * 2))),
               int (((FS * FS + B_Y ?K * 1 - 1) div (B_Y ?K * 1)) * (NFC div colorsPerThread ?K)))"
        using g big True unfolding launch_geometry_def Let_def DIVUP_def k smod_int_numeral
        by (auto simp: zdiv_int)
      have dX: "B_X ?K * 2 dvd NFPG" using True k by (auto simp: dvd_eq_mod_eq_0)
      have dF: "B_X ?K * 2 dvd NF" using dvd_of_group [OF d3] dX unfolding NFPG_def by blast
      have dC: "colorsPerThread ?K dvd NFC" using c4 k by (auto simp: dvd_eq_mod_eq_0)
      have th: "l_threads L = (B_X ?K, B_Y ?K)" using lt gg by simp
      have wfg: "wf_grid ?K ?a 1 (filtersPerThread ?K) (colorsPerThread ?K) ?nom (l_blocks L)"
        unfolding wf_grid_def a1 a2 lb gg nom using dF dC k by (auto simp: nat_int_mult)
      have wfb: "wf_block ?K" unfolding wf_block_def loadStep_def pc using k by auto
      have wfl: "wf_launch ?K ?a 1 (filtersPerThread ?K)"
        unfolding wf_launch_def a1 a2 using wfb dX cb nmx k pc by (auto simp: loadStep_def)
      show ?thesis
        unfolding variant_ok_def Let_def la using th sc wfg wfl k(1) by (simp add: a1)
    next
      case False
      have k: "l_kernel L = weight_acts_kernel2_manycolor" "pixelsPerThread ?K = 2"
        "colorsPerThread ?K = (if NFC mod 8 = 0 then 8 else 4)"
        "B_Y ?K = 8" "B_X ?K = 16"
        using tc big False unfolding smod_int_numeral by simp_all
      have gg: "bx = int (B_X ?K)" "by' = int (B_Y ?K)"
        "bl = (int ((NM div MS) * (NF div (B_X ?K * 1))),
               int (((FS * FS + B_Y ?K * 2 - 1) div (B_Y ?K * 2)) * (NFC div colorsPerThread ?K)))"
        using g big False unfolding launch_geometry_def Let_def DIVUP_def k smod_int_numeral
        by (auto simp: zdiv_int)
      have dX: "B_X ?K * 1 dvd NFPG" using d4 k by simp
      have dF: "B_X ?K * 1 dvd NF" using dvd_of_group [OF d3] dX unfolding NFPG_def by blast
      have dC: "colorsPerThread ?K dvd NFC" using c4 k by (auto simp: dvd_eq_mod_eq_0)
      have th: "l_threads L = (B_X ?K, B_Y ?K)" using lt gg by simp
      have wfg: "wf_grid ?K ?a (pixelsPerThread ?K) 1 (colorsPerThread ?K) ?nom (l_blocks L)"
        unfolding wf_grid_def a1 a2 lb gg nom using dF dC k by (auto simp: nat_int_mult)
      have wfb: "wf_block ?K" unfolding wf_block_def loadStep_def pc using k by auto
      have wfl: "wf_launch ?K ?a (pixelsPerThread ?K) 1"
        unfolding wf_launch_def a1 a2 using wfb dX cb nmx k pc by (auto simp: loadStep_def)
      show ?thesis
        unfolding variant_ok_def Let_def la using th sc wfg wfl k(1) FSb by (simp add: a1)
    qed
  next
    case False
    then have sm: "NFC \<le> 3" by simp
    from one [OF sm] have NG1: "NG = 1" and NC: "NFC = NIC" and NC0: "0 < NFC" by simp_all
    have NFPGeq: "NFPG = NF" by (simp add: NFPG_def NG1)
    have k: "l_kernel L = weight_acts_kernel2_color" "numColors ?K = NFC"
      "pixelsPerThread ?K = (if NF mod 32 = 0 then (if NFC = 1 then 8 else 5)
                                  else (if NFC = 1 then 5 else 2))"
      "B_Y ?K = (if NF mod 32 = 0 then 4 else 8)" "B_X ?K = (if NF mod 32 = 0 then 32 else 16)"
      using tc False unfolding smod_int_numeral by simp_all
    have gg: "bx = int (B_X ?K)" "by' = int (B_Y ?K)"
      "bl = (int ((NM div MS) * (NF div (B_X ?K * 1))),
             int (((FS * FS + B_Y ?K * pixelsPerThread ?K - 1) div (B_Y ?K * pixelsPerThread ?K))
                  * (NFC div numColors ?K)))"
      using g False NC0 unfolding launch_geometry_def Let_def DIVUP_def k smod_int_numeral NC [symmetric]
      by (auto simp: zdiv_int)
    have d16: "16 dvd NF" using d2 by (rule dvd_mult_left)
    have dF: "B_X ?K * 1 dvd NF" using d16 k by (auto simp: dvd_eq_mod_eq_0)
    have th: "l_threads L = (B_X ?K, B_Y ?K)" using lt gg by simp
    have wfg: "wf_grid ?K ?a (pixelsPerThread ?K) 1 (numColors ?K) ?nom (l_blocks L)"
      unfolding wf_grid_def a1 a2 lb gg nom using dF k NC0 by (auto simp: nat_int_mult)
    have wfb: "wf_block ?K" unfolding wf_block_def loadStep_def pc using k by auto
    have wfl: "wf_launch ?K ?a (pixelsPerThread ?K) 1"
      unfolding wf_launch_def a1 a2 NFPGeq using wfb dF cb nmx k pc by (auto simp: loadStep_def)
    show ?thesis
      unfolding variant_ok_def Let_def la using th sc wfg wfl k(1,2) NG1 by (simp add: a1 a2)
  qed
qed

lemma resize_data [simp]: "getDevData (resize M r c) = getDevData M"
  "getNumRows (resize M r c) = r" "getNumCols (resize M r c) = c"
  "isTrans (resize M r c) = isTrans M" "isContiguous (resize M r c) = isContiguous M"
  by (simp_all add: resize_def)

lemma convWeightActs_Inr:
  assumes ok: "convWeightActs junk I H T nmx fs ps ms nic ng sT sO mS0 = Inr R"
    and ng: "0 < ng"
  shows "\<exists>T' L. convWeightActs_launch I H T nmx fs ps ms nic ng sT sO mS0 = Inr (T', Some L)
          \<and> R = T'\<lparr>getDevData := run_launch L (getDevData I) (getDevData H) junk (getDevData T')\<rparr>"
proof -
  obtain r where r: "convWeightActs_launch I H T nmx fs ps ms nic ng sT sO mS0 = Inr r"
    using ok unfolding convWeightActs_def by (auto split: sum.splits)
  from launch_Inr_checks [OF r] obtain T' L where
    l: "convWeightActs_launch I H T nmx fs ps ms nic ng sT sO mS0 = Inr (T', Some L)"
    using checks_launch_Some by blast
  show ?thesis using ok l unfolding convWeightActs_def by auto
qed

lemma host_shape:
  assumes ok: "convWeightActs_launch I H T nmx fs ps ms nic ng sT sO mS0 = Inr (T', Some L)"
    and nmx: "0 < nmx" and ng: "0 < ng" and fs0: "0 \<le> fs" and mS: "0 \<le> mS0"
  shows "getNumRows T' = result_rows nmx fs nic ng mS0"
    and "getNumCols T' = nat (host_numFilters H nmx)"
    and "getDevData T' = getDevData T"
    and "\<not> isTrans T'" and "isContiguous T'"
    and "\<not> (sT = 0 \<and> sO = 1) \<Longrightarrow> T' = T"
    and "host_nom nmx mS0 * numFilterColors (host_args I H nmx fs ps ms nic ng sT sO mS0)
          * filterPixels (host_args I H nmx fs ps ms nic ng sT sO mS0)
          = result_rows nmx fs nic ng mS0"
    and "numFilters (host_args I H nmx fs ps ms nic ng sT sO mS0) = nat (host_numFilters H nmx)"
proof -
  note inv = launch_Some_inv [OF ok]
  have ch: "convWeightActs_checks I H T nmx fs ps ms nic ng sT sO mS0"
    using ok by (rule launch_Inr_checks)
  have T': "T' = (if sT = 0 \<and> sO = 1
              then resize T (result_rows nmx fs nic ng mS0) (nat (host_numFilters H nmx)) else T)"
    using inv by (simp add: result_rows_def)
  have fl: "\<not> isTrans T" "isContiguous T"
    using ch unfolding convWeightActs_checks_def Let_def by simp_all
  have sh: "\<not> (sT = 0 \<and> sO = 1) \<Longrightarrow> int (getNumRows T) = int (result_rows nmx fs nic ng mS0)
            \<and> int (getNumCols T) = host_numFilters H nmx"
  proof -
    assume n: "\<not> (sT = 0 \<and> sO = 1)"
    have m1: "0 < nmx * nmx" using nmx by simp
    have a: "int (getNumRows T) = ((nmx * nmx) sdiv (if mS0 = 0 then nmx * nmx else mS0)) * (nic sdiv ng) * (fs * fs)"
      and b: "int (getNumCols T) = host_numFilters H nmx"
      using ch n unfolding convWeightActs_checks_def Let_def host_numFilters_def by auto
    have "0 \<le> int (getNumRows T)" by simp
    then show ?thesis unfolding result_rows_def using a b by simp
  qed
  show "getNumRows T' = result_rows nmx fs nic ng mS0" using T' sh by (cases "sT = 0 \<and> sO = 1") auto
  show "getNumCols T' = nat (host_numFilters H nmx)" using T' sh by (cases "sT = 0 \<and> sO = 1") auto
  show "getDevData T' = getDevData T" using T' by simp
  show "\<not> isTrans T'" "isContiguous T'" using T' fl by simp_all
  show "\<not> (sT = 0 \<and> sO = 1) \<Longrightarrow> T' = T" using T' by auto
  have m1: "0 < nmx * nmx" using nmx by simp
  have mS1: "0 < (if mS0 = 0 then nmx * nmx else mS0)" using mS m1 by auto
  have chk: "nic \<noteq> 0" "ng > 1 \<or> (nic > 0 \<and> (nic \<le> 3 \<or> nic smod 4 = 0))" "nic sdiv ng > 3 \<or> ng = 1"
    using ch unfolding convWeightActs_checks_def Let_def by simp_all
  have nic0: "0 < nic"
  proof (cases "ng = 1")
    case True then show ?thesis using chk(2) by simp
  next
    case False
    then have "3 < nic sdiv ng" using chk(3) by simp
    moreover have "nic sdiv ng \<le> 0" if "nic \<le> 0"
    proof -
      have "0 \<le> (- nic) div ng" using that ng by (simp add: pos_imp_zdiv_nonneg_iff)
      then show ?thesis using that ng by (simp add: signed_divide_int_def sgn_if)
    qed
    ultimately show ?thesis by (cases "0 < nic") auto
  qed
  have q0: "0 \<le> (nmx * nmx) div (if mS0 = 0 then nmx * nmx else mS0)"
    using m1 mS1 by (simp add: pos_imp_zdiv_nonneg_iff)
  have c0: "0 \<le> nic div ng" using nic0 ng by (simp add: pos_imp_zdiv_nonneg_iff)
  show "host_nom nmx mS0 * numFilterColors (host_args I H nmx fs ps ms nic ng sT sO mS0)
          * filterPixels (host_args I H nmx fs ps ms nic ng sT sO mS0)
          = result_rows nmx fs nic ng mS0"
    using m1 mS1 nic0 ng fs0 q0 c0 mS
    by (simp add: host_nom_def result_rows_def numFilterColors_def filterPixels_def host_args_def
          nat_mult_distrib nat_div_distrib)
  show "numFilters (host_args I H nmx fs ps ms nic ng sT sO mS0) = nat (host_numFilters H nmx)"
    by (simp add: host_args_def)
qed

lemma host_nom_div:
  assumes "0 < nmx" "0 \<le> mS0"
  shows "host_nom nmx mS0 = nat ((nmx * nmx) div (if mS0 = 0 then nmx * nmx else mS0))"
  using assms by (simp add: host_nom_def)

lemma convWeightActs_launch_result:
  assumes ok: "convWeightActs_launch I H T nmx fs ps ms nic ng sT sO mS0 = Inr (T', Some L)"
    and nmx: "0 < nmx" and ng: "0 < ng" and fs0: "0 \<le> fs" and fs: "fs \<le> 32768" and mS: "0 \<le> mS0"
  shows "convWeightActs junk I H T nmx fs ps ms nic ng sT sO mS0
         = Inr (T'\<lparr>getDevData := reference_result (host_args I H nmx fs ps ms nic ng sT sO mS0)
                     (host_nom nmx mS0) (getDevData I) (getDevData H) (getDevData T)\<rparr>)"
proof -
  have v: "variant_ok L (host_nom nmx mS0)"
    using host_variant_ok [OF ok nmx ng fs0 fs mS] host_nom_div [OF nmx mS] by simp
  have la: "l_args L = host_args I H nmx fs ps ms nic ng sT sO mS0"
    using launch_Some_inv [OF ok] by simp
  have d: "getDevData T' = getDevData T" using host_shape(3) [OF ok nmx ng fs0 mS] .
  show ?thesis
    unfolding convWeightActs_def ok using run_launch_reference [OF v] la d by simp
qed

lemmas spec_defs = target_ref_def spec_weight_grad_def spec_image_def spec_pixel_def spec_hidAct_def
  numFiltersPerGroup_def numFilterColors_def filterPixels_def imgPixels_def numModules_def

lemma target_ref_scale:
  "target_ref (host_args I H nmx fs ps ms nic ng sT sO mS0) = target_ref (host_args I H nmx fs ps ms nic ng 0 1 mS0)"
proof -
  have g: "target_ref (a\<lparr>scaleTargets := s, scaleOutput := t\<rparr>) = target_ref a" for a s t
    by (simp add: fun_eq_iff spec_defs cong: if_cong)
  have "host_args I H nmx fs ps ms nic ng sT sO mS0
        = (host_args I H nmx fs ps ms nic ng 0 1 mS0)\<lparr>scaleTargets := sT, scaleOutput := sO\<rparr>"
    by (simp add: host_args_def)
  then show ?thesis using g by simp
qed

lemma convWeightActs_value:
  assumes ok: "convWeightActs junk I H T nmx fs ps ms nic ng sT sO mS0 = Inr R"
    and nmx: "0 < nmx" and ng: "0 < ng" and fs0: "0 \<le> fs" and fs: "fs \<le> 32768" and mS: "0 \<le> mS0"
  shows "getNumRows R = result_rows nmx fs nic ng mS0"
    and "getNumCols R = nat (host_numFilters H nmx)"
    and "\<not> isTrans R" and "isContiguous R"
    and "getDevData R = (\<lambda>x. if x < result_rows nmx fs nic ng mS0 * nat (host_numFilters H nmx)
                              then sT * getDevData T x + sO * host_ref I H nmx fs ps ms nic ng mS0 x
                              else getDevData T x)"
    and "\<not> (sT = 0 \<and> sO = 1) \<Longrightarrow>
           getNumRows T = result_rows nmx fs nic ng mS0 \<and> getNumCols T = nat (host_numFilters H nmx)"
proof -
  obtain T' L where l: "convWeightActs_launch I H T nmx fs ps ms nic ng sT sO mS0 = Inr (T', Some L)"
    using convWeightActs_Inr [OF ok ng] by blast
  note sh = host_shape [OF l nmx ng fs0 mS]
  have R: "R = T'\<lparr>getDevData := reference_result (host_args I H nmx fs ps ms nic ng sT sO mS0)
                     (host_nom nmx mS0) (getDevData I) (getDevData H) (getDevData T)\<rparr>"
    using convWeightActs_launch_result [OF l nmx ng fs0 fs mS, of junk] ok by simp
  show "getNumRows R = result_rows nmx fs nic ng mS0" "getNumCols R = nat (host_numFilters H nmx)"
    "\<not> isTrans R" "isContiguous R"
    using sh unfolding R by simp_all
  show "getDevData R = (\<lambda>x. if x < result_rows nmx fs nic ng mS0 * nat (host_numFilters H nmx)
                              then sT * getDevData T x + sO * host_ref I H nmx fs ps ms nic ng mS0 x
                              else getDevData T x)"
    unfolding R reference_result_def sh(7) sh(8) host_ref_def target_ref_scale [of I H nmx fs ps ms nic ng sT sO mS0]
  proof -
    have "scaleTargets (host_args I H nmx fs ps ms nic ng sT sO mS0) = sT"
      "scaleOutput (host_args I H nmx fs ps ms nic ng sT sO mS0) = sO"
      by (simp_all add: host_args_def)
    then show "getDevData
     (T'\<lparr>getDevData :=
           \<lambda>x. if x < result_rows nmx fs nic ng mS0 * nat (host_numFilters H nmx)
               then scaleTargets (host_args I H nmx fs ps ms nic ng sT sO mS0) * getDevData T x +
                    scaleOutput (host_args I H nmx fs ps ms nic ng sT sO mS0) *
                    target_ref (host_args I H nmx fs ps ms nic ng 0 1 mS0) (getDevData I) (getDevData H) x
               else getDevData T x\<rparr>) =
    (\<lambda>x. if x < result_rows nmx fs nic ng mS0 * nat (host_numFilters H nmx)
         then sT * getDevData T x +
              sO * target_ref (host_args I H nmx fs ps ms nic ng 0 1 mS0) (getDevData I) (getDevData H) x
         else getDevData T x)"
      by (simp cong: if_cong)
  qed
  show "\<not> (sT = 0 \<and> sO = 1) \<Longrightarrow>
           getNumRows T = result_rows nmx fs nic ng mS0 \<and> getNumCols T = nat (host_numFilters H nmx)"
    using sh(1,2,6) by auto
qed

section \<open>The routine computes the reference\<close>




end
